theory Spec2Isabelle
  imports Main "HOL-Library.AList"
begin

section \<open>Values\<close>

text \<open>
  The program works on parsed JSON: \<open>None\<close>, booleans, integers, floats and strings at the
  leaves, lists and dictionaries above them.  A float leaf is carried as the text that
  Python's \<open>str\<close> gives for it; the program stores floats, converts them with \<open>str\<close> and
  tests their truth value, nothing else.  A Python dictionary keeps its keys in insertion
  order, so a dictionary is an association list; assigning to a key that is present keeps
  the key's position (\<open>AList.update\<close>), assigning to a new key appends it.
\<close>

datatype scalar = SNone | SBool bool | SInt int | SFloat string | SStr string

datatype json = Leaf scalar | JList "json list" | JDict "(string \<times> json) list"

type_synonym flat = "(string \<times> scalar) list"

subsection \<open>Python's \<open>str\<close> on scalars\<close>

fun str_nat :: "nat \<Rightarrow> string" where
  "str_nat n =
     (if n < 10 then [''0123456789'' ! n]
      else str_nat (n div 10) @ [''0123456789'' ! (n mod 10)])"

definition str_int :: "int \<Rightarrow> string" where
  "str_int i = (if i < 0 then ''-'' @ str_nat (nat (- i)) else str_nat (nat i))"

fun py_str :: "scalar \<Rightarrow> string" where
  "py_str SNone = ''None''"
| "py_str (SBool b) = (if b then ''True'' else ''False'')"
| "py_str (SInt i) = str_int i"
| "py_str (SFloat t) = t"
| "py_str (SStr s) = s"

text \<open>\<open>s.join(xs)\<close>\<close>

fun join :: "string \<Rightarrow> string list \<Rightarrow> string" where
  "join s [] = []"
| "join s [x] = x"
| "join s (x # y # ys) = x @ s @ join s (y # ys)"

text \<open>\<open>k.startswith(r)\<close>\<close>

definition startswith :: "string \<Rightarrow> string \<Rightarrow> bool" where
  "startswith k r = (take (length r) k = r)"

section \<open>The flattener\<close>

text \<open>
  \<open>_flatten_data\<close> creates the dictionary \<open>flat_dict\<close> and lets the nested function
  \<open>_flatten_inner\<close> fill it.  The model passes \<open>flat_dict\<close> through every call and returns
  it updated.  \<open>list_items\<close> maps a sub-key to the list of values collected for it.

  \<open>str\<close> of a list that is itself an element of a list is Python's rendering of the list
  from the \<open>repr\<close> of its elements; it is the parameter \<open>list_str\<close>.
\<close>

type_synonym list_items = "(string \<times> scalar list) list"

text \<open>
  \<open>if k not in list_items: list_items[k] = []\<close> followed by \<open>list_items[k].append(v)\<close>.
\<close>

definition list_items_append :: "string \<Rightarrow> scalar \<Rightarrow> list_items \<Rightarrow> list_items" where
  "list_items_append k v li =
     AList.map_entry k (\<lambda>vs. vs @ [v])
       (if map_of li k = None then AList.update k [] li else li)"

text \<open>
  The loop over \<open>flat_dict.items()\<close> that fills \<open>flattened_dict\<close> with the entries whose key
  starts with \<open>key_root\<close>, the prefix cut off.
\<close>

definition scan_flat_dict :: "string \<Rightarrow> flat \<Rightarrow> flat" where
  "scan_flat_dict key_root flat_dict =
     fold (\<lambda>(k, v) flattened_dict.
             if startswith k key_root
             then AList.update (drop (length key_root) k) v flattened_dict
             else flattened_dict)
          flat_dict []"

text \<open>The loop over \<open>flattened_dict.items()\<close> that appends to \<open>list_items\<close>.\<close>

definition collect_items :: "flat \<Rightarrow> list_items \<Rightarrow> list_items" where
  "collect_items flattened_dict li = fold (\<lambda>(k, v). list_items_append k v) flattened_dict li"

text \<open>The loop over \<open>list_items.items()\<close> that writes the joined strings.\<close>

definition emit_items :: "string \<Rightarrow> string \<Rightarrow> list_items \<Rightarrow> flat \<Rightarrow> flat" where
  "emit_items sep parent_key li flat_dict =
     fold (\<lambda>(k, v). AList.update (parent_key @ sep @ k) (SStr (join '', '' (map py_str v))))
          li flat_dict"

definition new_key :: "string \<Rightarrow> string \<Rightarrow> string \<Rightarrow> string" where
  "new_key sep parent_key key = (if parent_key \<noteq> [] then parent_key @ sep @ key else key)"

fun flatten_inner :: "(json list \<Rightarrow> string) \<Rightarrow> string \<Rightarrow> json \<Rightarrow> string \<Rightarrow> flat \<Rightarrow> flat"
  and flatten_dict_items ::
    "(json list \<Rightarrow> string) \<Rightarrow> string \<Rightarrow> (string \<times> json) list \<Rightarrow> string \<Rightarrow> flat \<Rightarrow> flat"
  and flatten_list_values ::
    "(json list \<Rightarrow> string) \<Rightarrow> string \<Rightarrow> json list \<Rightarrow> string \<Rightarrow> list_items \<Rightarrow> flat
       \<Rightarrow> list_items \<times> flat"
where
  "flatten_inner ls sep (JDict kvs) parent_key fd = flatten_dict_items ls sep kvs parent_key fd"
| "flatten_inner ls sep (JList vs) parent_key fd =
     (case flatten_list_values ls sep vs parent_key [] fd of
        (li, fd') \<Rightarrow> emit_items sep parent_key li fd')"
| "flatten_inner ls sep (Leaf s) parent_key fd = AList.update parent_key s fd"
| "flatten_dict_items ls sep [] parent_key fd = fd"
| "flatten_dict_items ls sep ((key, value) # kvs) parent_key fd =
     flatten_dict_items ls sep kvs parent_key
       (flatten_inner ls sep value (new_key sep parent_key key) fd)"
| "flatten_list_values ls sep [] parent_key li fd = (li, fd)"
| "flatten_list_values ls sep (JDict kvs # vs) parent_key li fd =
     (let fd' = flatten_inner ls sep (JDict kvs) parent_key fd;
          flattened_dict = scan_flat_dict (parent_key @ sep) fd'
      in flatten_list_values ls sep vs parent_key (collect_items flattened_dict li) fd')"
| "flatten_list_values ls sep (JList ws # vs) parent_key li fd =
     flatten_list_values ls sep vs parent_key
       (list_items_append parent_key (SStr (ls ws)) li) fd"
| "flatten_list_values ls sep (Leaf s # vs) parent_key li fd =
     flatten_list_values ls sep vs parent_key
       (list_items_append parent_key (SStr (py_str s)) li) fd"

definition flatten_data :: "(json list \<Rightarrow> string) \<Rightarrow> string \<Rightarrow> json \<Rightarrow> flat" where
  "flatten_data ls sep data = flatten_inner ls sep data [] []"

text \<open>A dictionary whose values are all scalars, as a value of the tree type.\<close>

definition scalar_dict :: "flat \<Rightarrow> json" where
  "scalar_dict r = JDict (map (\<lambda>(k, s). (k, Leaf s)) r)"

section \<open>Trees without lists, as the specification describes them\<close>

text \<open>
  The specification says of a tree without lists: a scalar at path \<open>p\<close> is emitted as
  \<open>p -> value\<close>; a mapping at path \<open>p\<close> emits nothing for \<open>p\<close> and descends into each child
  \<open>k\<close> with the path \<open>p + separator + k\<close>, or just \<open>k\<close> if \<open>p\<close> is empty.  The definitions
  below follow these words, not the code: \<open>leaves\<close> lists the scalar leaves of a tree in
  traversal order, each with the list of keys from the root to it, and \<open>joined_path\<close> joins
  such a list of keys into one key.
\<close>

fun no_lists :: "json \<Rightarrow> bool"
  and no_lists_items :: "(string \<times> json) list \<Rightarrow> bool"
where
  "no_lists (Leaf s) = True"
| "no_lists (JList vs) = False"
| "no_lists (JDict kvs) = no_lists_items kvs"
| "no_lists_items [] = True"
| "no_lists_items ((k, v) # kvs) = (no_lists v \<and> no_lists_items kvs)"

fun leaves :: "json \<Rightarrow> (string list \<times> scalar) list"
  and leaves_items :: "(string \<times> json) list \<Rightarrow> (string list \<times> scalar) list"
where
  "leaves (Leaf s) = [([], s)]"
| "leaves (JList vs) = []"
| "leaves (JDict kvs) = leaves_items kvs"
| "leaves_items [] = []"
| "leaves_items ((k, v) # kvs) = map (\<lambda>(ks, s). (k # ks, s)) (leaves v) @ leaves_items kvs"

definition extend_path :: "string \<Rightarrow> string \<Rightarrow> string \<Rightarrow> string" where
  "extend_path sep p k = (if p = [] then k else p @ sep @ k)"

definition joined_path :: "string \<Rightarrow> string list \<Rightarrow> string" where
  "joined_path sep ks = foldl (extend_path sep) [] ks"

section \<open>Python operations on parsed JSON\<close>

text \<open>
  The exceptions the program can raise on a value of the wrong shape, and
  \<open>DownloadError\<close> for an exception of the retriever that nothing catches, with its text.
\<close>

datatype py_error = KeyError | IndexError | TypeError | AttributeError | DownloadError string

definition py_bind :: "py_error + 'a \<Rightarrow> ('a \<Rightarrow> py_error + 'b) \<Rightarrow> py_error + 'b" where
  "py_bind r f = (case r of Inl e \<Rightarrow> Inl e | Inr v \<Rightarrow> f v)"

text \<open>\<open>x[key]\<close> for a string \<open>key\<close>.\<close>

fun getitem :: "json \<Rightarrow> string \<Rightarrow> py_error + json" where
  "getitem (JDict kvs) key = (case map_of kvs key of None \<Rightarrow> Inl KeyError | Some v \<Rightarrow> Inr v)"
| "getitem (JList vs) key = Inl TypeError"
| "getitem (Leaf s) key = Inl TypeError"

text \<open>\<open>x[0]\<close>.  The keys of a parsed JSON object are strings, so \<open>0\<close> is never among them.\<close>

fun getitem0 :: "json \<Rightarrow> py_error + json" where
  "getitem0 (JList []) = Inl IndexError"
| "getitem0 (JList (v # vs)) = Inr v"
| "getitem0 (JDict kvs) = Inl KeyError"
| "getitem0 (Leaf (SStr [])) = Inl IndexError"
| "getitem0 (Leaf (SStr (c # cs))) = Inr (Leaf (SStr [c]))"
| "getitem0 (Leaf s) = Inl TypeError"

text \<open>The values a \<open>for\<close> loop over \<open>x\<close> visits: elements, keys or characters.\<close>

fun py_iter :: "json \<Rightarrow> py_error + json list" where
  "py_iter (JList vs) = Inr vs"
| "py_iter (JDict kvs) = Inr (map (\<lambda>(k, v). Leaf (SStr k)) kvs)"
| "py_iter (Leaf (SStr s)) = Inr (map (\<lambda>c. Leaf (SStr [c])) s)"
| "py_iter (Leaf s) = Inl TypeError"

text \<open>The truth value of \<open>x\<close>, as \<open>not x\<close> tests it.\<close>

fun truthy :: "json \<Rightarrow> bool" where
  "truthy (Leaf SNone) = False"
| "truthy (Leaf (SBool b)) = b"
| "truthy (Leaf (SInt i)) = (i \<noteq> 0)"
| "truthy (Leaf (SFloat t)) = (t \<noteq> ''0.0'' \<and> t \<noteq> ''-0.0'')"
| "truthy (Leaf (SStr s)) = (s \<noteq> [])"
| "truthy (JList vs) = (vs \<noteq> [])"
| "truthy (JDict kvs) = (kvs \<noteq> [])"

text \<open>\<open>sub in s\<close> on strings.\<close>

fun contains :: "string \<Rightarrow> string \<Rightarrow> bool" where
  "contains sub [] = (sub = [])"
| "contains sub (c # cs) = (startswith (c # cs) sub \<or> contains sub cs)"

text \<open>\<open>d.pop(key, None)\<close>, giving \<open>d\<close> as it is afterwards.\<close>

fun dict_pop :: "string \<Rightarrow> json \<Rightarrow> py_error + json" where
  "dict_pop key (JDict kvs) = Inr (JDict (AList.delete key kvs))"
| "dict_pop key (JList vs) = Inl TypeError"
| "dict_pop key (Leaf s) = Inl AttributeError"

text \<open>\<open>list(d.keys())\<close>.\<close>

fun dict_keys :: "json \<Rightarrow> py_error + string list" where
  "dict_keys (JDict kvs) = Inr (map fst kvs)"
| "dict_keys (JList vs) = Inl AttributeError"
| "dict_keys (Leaf s) = Inl AttributeError"

section \<open>Formatting a detail response\<close>

text \<open>
  \<open>_format_data\<close>: every \<open>d\<close> in \<open>data["data"]\<close> has its \<open>fields\<close> popped, flattened with the
  default separator and stored again, which puts the key \<open>fields\<close> last.
\<close>

fun format_record :: "(json list \<Rightarrow> string) \<Rightarrow> json \<Rightarrow> py_error + json" where
  "format_record ls (JDict kvs) =
     (case map_of kvs ''fields'' of
        None \<Rightarrow> Inl KeyError
      | Some fields \<Rightarrow>
          Inr (JDict (AList.update ''fields'' (scalar_dict (flatten_data ls ''-'' fields))
                        (AList.delete ''fields'' kvs))))"
| "format_record ls (JList vs) = Inl TypeError"
| "format_record ls (Leaf s) = Inl AttributeError"

fun format_records :: "(json list \<Rightarrow> string) \<Rightarrow> json list \<Rightarrow> py_error + json list" where
  "format_records ls [] = Inr []"
| "format_records ls (d # ds) =
     py_bind (format_record ls d) (\<lambda>d'. py_bind (format_records ls ds) (\<lambda>ds'. Inr (d' # ds')))"

fun format_data :: "(json list \<Rightarrow> string) \<Rightarrow> json \<Rightarrow> py_error + json" where
  "format_data ls (JDict kvs) =
     py_bind (getitem (JDict kvs) ''data'') (\<lambda>ds.
     py_bind (py_iter ds) (\<lambda>items.
     py_bind (format_records ls items) (\<lambda>items'.
       Inr (JDict (case ds of JList vs \<Rightarrow> AList.update ''data'' (JList items') kvs | _ \<Rightarrow> kvs)))))"
| "format_data ls (JList vs) = Inl TypeError"
| "format_data ls (Leaf s) = Inl TypeError"

section \<open>The fetch pipeline\<close>

text \<open>
  The retriever is not part of the repository.  \<open>download_json(url)\<close> is the parameter
  \<open>retr\<close>: it returns the parsed body, or raises an exception, of which \<open>Inl\<close> holds the
  text \<open>str(e)\<close>.  A log entry holds the level and message kind with the values the message
  is formatted from.
\<close>

datatype log_entry = Info_404 json string | Error_downloading json string | Info_no_data json

definition remove_keys :: "string list" where
  "remove_keys =
     [''uuid'', ''type-primary'', ''country-primary'', ''profile-overview'',
      ''profile-overview-html'']"

fun pop_keys :: "string list \<Rightarrow> json \<Rightarrow> py_error + json" where
  "pop_keys [] d = Inr d"
| "pop_keys (key # keys) d = py_bind (dict_pop key d) (pop_keys keys)"

text \<open>The part of the loop body of \<open>scrape_data\<close> that turns a detail body into a row.\<close>

definition format_row :: "(json list \<Rightarrow> string) \<Rightarrow> json \<Rightarrow> py_error + json" where
  "format_row ls disaster_data =
     py_bind (format_data ls disaster_data) (\<lambda>flat_data.
     py_bind (getitem flat_data ''data'') (\<lambda>records.
     py_bind (getitem0 records) (\<lambda>record.
     py_bind (getitem record ''fields'') (\<lambda>disaster_fields.
       pop_keys remove_keys disaster_fields))))"

text \<open>\<open>disaster['fields']['name']\<close>, which every log message of the loop formats.\<close>

definition item_name :: "json \<Rightarrow> py_error + json" where
  "item_name disaster = py_bind (getitem disaster ''fields'') (\<lambda>fields. getitem fields ''name'')"

fun scrape_loop ::
  "(json list \<Rightarrow> string) \<Rightarrow> (json \<Rightarrow> string + json) \<Rightarrow> json list
     \<Rightarrow> log_entry list \<times> json list \<Rightarrow> py_error + log_entry list \<times> json list"
where
  "scrape_loop ls retr [] st = Inr st"
| "scrape_loop ls retr (disaster # rest) (log, disasters_list) =
     py_bind (getitem disaster ''href'') (\<lambda>disaster_url.
       case retr disaster_url of
         Inl e \<Rightarrow>
           py_bind (item_name disaster) (\<lambda>name.
             scrape_loop ls retr rest
               (log @ [if contains ''404'' e then Info_404 name e else Error_downloading name e],
                disasters_list))
       | Inr disaster_data \<Rightarrow>
           if \<not> truthy disaster_data
           then py_bind (item_name disaster) (\<lambda>name.
                  scrape_loop ls retr rest (log @ [Info_no_data name], disasters_list))
           else py_bind (format_row ls disaster_data) (\<lambda>disaster_fields.
                  scrape_loop ls retr rest (log, disasters_list @ [disaster_fields])))"

definition data_url :: "string \<Rightarrow> string" where
  "data_url base_url = base_url @ ''?appname=vocabulary&preset=external&limit=1000''"

definition scrape_data ::
  "(json list \<Rightarrow> string) \<Rightarrow> (json \<Rightarrow> string + json) \<Rightarrow> string
     \<Rightarrow> py_error + log_entry list \<times> json list"
where
  "scrape_data ls retr base_url =
     (case retr (Leaf (SStr (data_url base_url))) of
        Inl e \<Rightarrow> Inl (DownloadError e)
      | Inr data \<Rightarrow>
          py_bind (getitem data ''data'') (\<lambda>disaster_list.
          py_bind (py_iter disaster_list) (\<lambda>items. scrape_loop ls retr items ([], []))))"

section \<open>Dataset generation\<close>

text \<open>
  The dataset class and its methods belong to a library.  The model records the arguments
  they are called with; \<open>slugify\<close> is a parameter.  What the model keeps of
  \<open>generate_dataset\<close> itself is the expression \<open>list(disaster_list[0].keys())\<close>, which is
  evaluated before \<open>generate_resource_from_iterable\<close> is called.
\<close>

record resource_call =
  headers :: "string list"
  iterable :: "json list"
  hxltags :: "(string \<times> string) list"
  folder :: string
  filename :: string
  resourcedata :: "(string \<times> string) list"
  datecol :: string

record dataset =
  ds_name :: string
  ds_title :: string
  ds_locations :: "string list"
  ds_tags :: "string list"
  ds_resource :: resource_call

record configuration =
  fixed_tags :: "string list"
  hxl_tags :: "(string \<times> string) list"

definition generate_dataset ::
  "(string \<Rightarrow> string) \<Rightarrow> configuration \<Rightarrow> string \<Rightarrow> json list \<Rightarrow> py_error + dataset"
where
  "generate_dataset slugify config temp_dir disaster_list =
     py_bind (case disaster_list of [] \<Rightarrow> Inl IndexError | first # rest \<Rightarrow> dict_keys first)
       (\<lambda>keys.
          Inr \<lparr>ds_name = slugify ''ReliefWeb Disasters List'',
               ds_title = ''ReliefWeb Disasters List'',
               ds_locations = [''world''],
               ds_tags = fixed_tags config,
               ds_resource =
                 \<lparr>headers = keys,
                  iterable = disaster_list,
                  hxltags = hxl_tags config,
                  folder = temp_dir,
                  filename = ''reliefweb-disasters-list.csv'',
                  resourcedata =
                    [(''name'', ''reliefweb-disasters-list.csv''),
                     (''description'',
                      ''CSV with HXL tags of ongoing and past disasters covered by ReliefWeb'')],
                  datecol = ''date-event''\<rparr>\<rparr>)"

text \<open>\<open>main\<close> of the top level script: scrape, then generate the dataset from the rows.\<close>

definition main ::
  "(json list \<Rightarrow> string) \<Rightarrow> (json \<Rightarrow> string + json) \<Rightarrow> string \<Rightarrow> (string \<Rightarrow> string)
     \<Rightarrow> configuration \<Rightarrow> string \<Rightarrow> py_error + dataset"
where
  "main ls retr base_url slugify config temp_dir =
     py_bind (scrape_data ls retr base_url) (\<lambda>(log, disaster_list).
       generate_dataset slugify config temp_dir disaster_list)"

section \<open>Shapes of the responses, as the specification gives them\<close>

text \<open>
  The specification gives the shape of a detail response as
  \<open>{"data": [{"fields": {...}, ...}]}\<close> and of a listed item as
  \<open>{"id": ..., "score": ..., "fields": {...}, "href": url}\<close>; the messages of the loop read
  \<open>fields.name\<close> of the item.  \<open>outcome\<close> names what the fetch of a listed item results in,
  in the words of the specification.
\<close>

fun has_fields :: "json \<Rightarrow> bool" where
  "has_fields (JDict kvs) = (map_of kvs ''fields'' \<noteq> None)"
| "has_fields (JList vs) = False"
| "has_fields (Leaf s) = False"

fun wf_body :: "json \<Rightarrow> bool" where
  "wf_body (JDict kvs) =
     (case map_of kvs ''data'' of
        Some (JList (r # rs)) \<Rightarrow> list_all has_fields (r # rs)
      | _ \<Rightarrow> False)"
| "wf_body (JList vs) = False"
| "wf_body (Leaf s) = False"

datatype outcome = Not_found | Other_error | Empty_body | Detail json | No_href

definition outcome :: "(json \<Rightarrow> string + json) \<Rightarrow> json \<Rightarrow> outcome" where
  "outcome retr disaster =
     (case getitem disaster ''href'' of
        Inl e \<Rightarrow> No_href
      | Inr url \<Rightarrow>
          (case retr url of
             Inl e \<Rightarrow> if contains ''404'' e then Not_found else Other_error
           | Inr body \<Rightarrow> if truthy body then Detail body else Empty_body))"

definition wf_item :: "(json \<Rightarrow> string + json) \<Rightarrow> json \<Rightarrow> bool" where
  "wf_item retr disaster =
     ((case item_name disaster of Inl e \<Rightarrow> False | Inr name \<Rightarrow> True) \<and>
      (case outcome retr disaster of
         No_href \<Rightarrow> False
       | Detail body \<Rightarrow> wf_body body
       | _ \<Rightarrow> True))"

definition count_outcome :: "(json \<Rightarrow> string + json) \<Rightarrow> outcome \<Rightarrow> json list \<Rightarrow> nat" where
  "count_outcome retr out items = length (filter (\<lambda>disaster. outcome retr disaster = out) items)"

text \<open>The rows of the listed items whose fetch gives a non-empty body, in the order listed.\<close>

definition kept_rows ::
  "(json list \<Rightarrow> string) \<Rightarrow> (json \<Rightarrow> string + json) \<Rightarrow> json list \<Rightarrow> json list" where
  "kept_rows ls retr items =
     concat (map (\<lambda>disaster.
                    case outcome retr disaster of
                      Detail body \<Rightarrow> (case format_row ls body of Inl e \<Rightarrow> [] | Inr row \<Rightarrow> [row])
                    | _ \<Rightarrow> [])
                 items)"

section \<open>A list at a position of a record\<close>

text \<open>
  \<open>subtree t ks\<close> is the value reached from \<open>t\<close> through the keys \<open>ks\<close>.  \<open>untouched sep
  parent_key t ks x\<close> says of the nodes that are flattened after the one at \<open>ks\<close> (the later
  siblings of the node and of the mappings it lies in) that none has the path \<open>x\<close>, and none
  a path that, followed by the separator, is the beginning of \<open>x\<close>.
\<close>

fun subtree :: "json \<Rightarrow> string list \<Rightarrow> json option" where
  "subtree t [] = Some t"
| "subtree (JDict kvs) (k # ks) =
     (case map_of kvs k of None \<Rightarrow> None | Some t \<Rightarrow> subtree t ks)"
| "subtree t (k # ks) = None"

fun untouched :: "string \<Rightarrow> string \<Rightarrow> json \<Rightarrow> string list \<Rightarrow> string \<Rightarrow> bool" where
  "untouched sep parent_key t [] x = True"
| "untouched sep parent_key (JDict kvs) (k # ks) x =
     (case dropWhile (\<lambda>(k', t'). k' \<noteq> k) kvs of
        [] \<Rightarrow> True
      | (k0, t0) # later \<Rightarrow>
          untouched sep (extend_path sep parent_key k) t0 ks x
          \<and> (\<forall>(k', t')\<in>set later.
                extend_path sep parent_key k' \<noteq> []
                \<and> x \<noteq> extend_path sep parent_key k'
                \<and> \<not> startswith x (extend_path sep parent_key k' @ sep)))"
| "untouched sep parent_key t (k # ks) x = True"

text \<open>
  The values collected in \<open>list_items\<close> for a key, none if the key is absent;
  \<open>list_items\<close> is \<open>filled\<close> when its keys are distinct and no list is empty.
\<close>

definition collected :: "list_items \<Rightarrow> string \<Rightarrow> scalar list" where
  "collected li x = (case map_of li x of Some vs \<Rightarrow> vs | None \<Rightarrow> [])"

definition filled :: "list_items \<Rightarrow> bool" where
  "filled li = (distinct (map fst li) \<and> (\<forall>(k, vs)\<in>set li. vs \<noteq> []))"

section \<open>The flattener on a store\<close>

text \<open>
  Whether \<open>_flatten_data\<close> changes its argument, and whether its result is a new object,
  is a question about objects, which the functions above do not have.  The functions of this
  section are a second embedding of \<open>_flatten_data\<close>, in which every dictionary and list is
  an object in a store: the tree passed in, \<open>flat_dict\<close>, and the \<open>list_items\<close>,
  \<open>flattened_dict\<close> and value lists that the list branch creates.  An address is an index
  into the store; creating an object appends it.  A value is a scalar or the address of an
  object.  A \<open>for\<close> loop over the items of a dictionary works on the items found when the
  loop starts.

  Python bounds the depth of recursion.  The first argument of the functions is the number
  of nested calls still allowed, and \<open>None\<close> stands for a call that raises, because the
  bound is reached or because an address does not hold what the code needs there.
\<close>

datatype hval = HScalar scalar | HRef nat

datatype hobj = HDict "(string \<times> hval) list" | HList "hval list"

type_synonym heap = "hobj list"

definition alloc :: "hobj \<Rightarrow> heap \<Rightarrow> nat \<times> heap" where
  "alloc obj h = (length h, h @ [obj])"

text \<open>\<open>d.items()\<close> and the elements of a list, for the object at an address.\<close>

definition dict_items :: "nat \<Rightarrow> heap \<Rightarrow> (string \<times> hval) list option" where
  "dict_items a h =
     (if a < length h then (case h ! a of HDict kvs \<Rightarrow> Some kvs | HList vs \<Rightarrow> None) else None)"

definition list_elems :: "nat \<Rightarrow> heap \<Rightarrow> hval list option" where
  "list_elems a h =
     (if a < length h then (case h ! a of HList vs \<Rightarrow> Some vs | HDict kvs \<Rightarrow> None) else None)"

text \<open>\<open>d[k] = v\<close> and \<open>l.append(v)\<close>, for the object at an address.\<close>

definition dict_store :: "nat \<Rightarrow> string \<Rightarrow> hval \<Rightarrow> heap \<Rightarrow> heap option" where
  "dict_store a k v h =
     (case dict_items a h of
        None \<Rightarrow> None
      | Some kvs \<Rightarrow> Some (h[a := HDict (AList.update k v kvs)]))"

definition list_append :: "nat \<Rightarrow> hval \<Rightarrow> heap \<Rightarrow> heap option" where
  "list_append a v h =
     (case list_elems a h of
        None \<Rightarrow> None
      | Some vs \<Rightarrow> Some (h[a := HList (vs @ [v])]))"

text \<open>
  The tree that a value stands for, read from the store; \<open>str\<close> of a list that is an
  element of a list is \<open>list_str\<close> of the elements read this way.
\<close>

fun tree_of :: "nat \<Rightarrow> heap \<Rightarrow> hval \<Rightarrow> json option"
  and trees_of :: "nat \<Rightarrow> heap \<Rightarrow> hval list \<Rightarrow> json list option"
  and tree_items_of :: "nat \<Rightarrow> heap \<Rightarrow> (string \<times> hval) list \<Rightarrow> (string \<times> json) list option"
where
  "tree_of 0 h v = None"
| "tree_of (Suc d) h (HScalar s) = Some (Leaf s)"
| "tree_of (Suc d) h (HRef a) =
     (if a < length h
      then (case h ! a of
              HList vs \<Rightarrow> map_option JList (trees_of d h vs)
            | HDict kvs \<Rightarrow> map_option JDict (tree_items_of d h kvs))
      else None)"
| "trees_of d h [] = Some []"
| "trees_of d h (v # vs) =
     (case tree_of d h v of
        None \<Rightarrow> None
      | Some t \<Rightarrow> map_option ((#) t) (trees_of d h vs))"
| "tree_items_of d h [] = Some []"
| "tree_items_of d h ((k, v) # kvs) =
     (case tree_of d h v of
        None \<Rightarrow> None
      | Some t \<Rightarrow> map_option ((#) (k, t)) (tree_items_of d h kvs))"

text \<open>\<open>isinstance(value, dict)\<close>\<close>

definition is_dict :: "heap \<Rightarrow> hval \<Rightarrow> bool" where
  "is_dict h v = (case v of HRef a \<Rightarrow> dict_items a h \<noteq> None | HScalar s \<Rightarrow> False)"

text \<open>\<open>str(value)\<close> for an element of a list that is not a dictionary.\<close>

definition hstr :: "nat \<Rightarrow> (json list \<Rightarrow> string) \<Rightarrow> heap \<Rightarrow> hval \<Rightarrow> string option" where
  "hstr d ls h v =
     (case v of
        HScalar s \<Rightarrow> Some (py_str s)
      | HRef a \<Rightarrow> (case tree_of d h v of Some (JList ts) \<Rightarrow> Some (ls ts) | _ \<Rightarrow> None))"

text \<open>
  \<open>if k not in list_items: list_items[k] = []\<close> followed by \<open>list_items[k].append(v)\<close>, for
  \<open>list_items\<close> at the address \<open>la\<close>.
\<close>

definition hlist_items_append :: "nat \<Rightarrow> string \<Rightarrow> hval \<Rightarrow> heap \<Rightarrow> heap option" where
  "hlist_items_append la k v h =
     (case dict_items la h of
        None \<Rightarrow> None
      | Some li \<Rightarrow>
          (case (if map_of li k = None
                 then (case alloc (HList []) h of (b, h') \<Rightarrow> dict_store la k (HRef b) h')
                 else Some h) of
             None \<Rightarrow> None
           | Some h1 \<Rightarrow>
               (case dict_items la h1 of
                  None \<Rightarrow> None
                | Some li1 \<Rightarrow>
                    (case map_of li1 k of
                       Some (HRef b) \<Rightarrow> list_append b v h1
                     | _ \<Rightarrow> None))))"

text \<open>The loop over the items of \<open>flat_dict\<close> that fills \<open>flattened_dict\<close> at \<open>fl\<close>.\<close>

fun hscan :: "string \<Rightarrow> nat \<Rightarrow> (string \<times> hval) list \<Rightarrow> heap \<Rightarrow> heap option" where
  "hscan key_root fl [] h = Some h"
| "hscan key_root fl ((k, v) # items) h =
     (if startswith k key_root
      then (case dict_store fl (drop (length key_root) k) v h of
              None \<Rightarrow> None
            | Some h' \<Rightarrow> hscan key_root fl items h')
      else hscan key_root fl items h)"

text \<open>The loop over the items of \<open>flattened_dict\<close> that appends to \<open>list_items\<close>.\<close>

fun hcollect :: "nat \<Rightarrow> (string \<times> hval) list \<Rightarrow> heap \<Rightarrow> heap option" where
  "hcollect la [] h = Some h"
| "hcollect la ((k, v) # items) h =
     (case hlist_items_append la k v h of
        None \<Rightarrow> None
      | Some h' \<Rightarrow> hcollect la items h')"

text \<open>
  The loop over the items of \<open>list_items\<close> that writes the joined strings into \<open>flat_dict\<close>
  at \<open>fa\<close>.  The values collected are scalars; for another value, whose \<open>str\<close> the model
  does not have, the loop gives no result.
\<close>

fun scalars_of :: "hval list \<Rightarrow> scalar list option" where
  "scalars_of [] = Some []"
| "scalars_of (HScalar s # vs) = map_option ((#) s) (scalars_of vs)"
| "scalars_of (HRef a # vs) = None"

fun hemit :: "string \<Rightarrow> string \<Rightarrow> nat \<Rightarrow> (string \<times> hval) list \<Rightarrow> heap \<Rightarrow> heap option" where
  "hemit sep parent_key fa [] h = Some h"
| "hemit sep parent_key fa ((k, HRef b) # items) h =
     (case Option.bind (list_elems b h) scalars_of of
        None \<Rightarrow> None
      | Some v \<Rightarrow>
          (case dict_store fa (parent_key @ sep @ k) (HScalar (SStr (join '', '' (map py_str v)))) h of
             None \<Rightarrow> None
           | Some h' \<Rightarrow> hemit sep parent_key fa items h'))"
| "hemit sep parent_key fa ((k, HScalar s) # items) h = None"

text \<open>
  What the list branch does after the nested call for an element that is a dictionary (the
  two loops through \<open>flattened_dict\<close> at \<open>fl\<close>), what it does for another element, and
  its final loop.
\<close>

definition hcollect_element ::
  "string \<Rightarrow> string \<Rightarrow> nat \<Rightarrow> nat \<Rightarrow> nat \<Rightarrow> heap \<Rightarrow> heap option" where
  "hcollect_element sep parent_key fa la fl h =
     Option.bind (Option.bind (dict_items fa h) (\<lambda>items. hscan (parent_key @ sep) fl items h))
       (\<lambda>h'. Option.bind (dict_items fl h') (\<lambda>items. hcollect la items h'))"

definition hcollect_scalar ::
  "nat \<Rightarrow> (json list \<Rightarrow> string) \<Rightarrow> nat \<Rightarrow> string \<Rightarrow> heap \<Rightarrow> hval \<Rightarrow> heap option" where
  "hcollect_scalar d ls la parent_key h value =
     Option.bind (hstr d ls h value)
       (\<lambda>s. hlist_items_append la parent_key (HScalar (SStr s)) h)"

definition hemit_items :: "string \<Rightarrow> string \<Rightarrow> nat \<Rightarrow> nat \<Rightarrow> heap \<Rightarrow> heap option" where
  "hemit_items sep parent_key fa la h =
     Option.bind (dict_items la h) (\<lambda>li. hemit sep parent_key fa li h)"

fun hflatten_inner ::
    "nat \<Rightarrow> (json list \<Rightarrow> string) \<Rightarrow> string \<Rightarrow> nat \<Rightarrow> heap \<Rightarrow> hval \<Rightarrow> string \<Rightarrow> heap option"
  and hflatten_dict_items ::
    "nat \<Rightarrow> (json list \<Rightarrow> string) \<Rightarrow> string \<Rightarrow> nat \<Rightarrow> heap \<Rightarrow> (string \<times> hval) list \<Rightarrow> string
       \<Rightarrow> heap option"
  and hflatten_list_values ::
    "nat \<Rightarrow> (json list \<Rightarrow> string) \<Rightarrow> string \<Rightarrow> nat \<Rightarrow> nat \<Rightarrow> heap \<Rightarrow> hval list \<Rightarrow> string
       \<Rightarrow> heap option"
where
  "hflatten_inner 0 ls sep fa h item parent_key = None"
| "hflatten_inner (Suc d) ls sep fa h (HScalar s) parent_key =
     dict_store fa parent_key (HScalar s) h"
| "hflatten_inner (Suc d) ls sep fa h (HRef a) parent_key =
     (if is_dict h (HRef a)
      then Option.bind (dict_items a h) (\<lambda>kvs. hflatten_dict_items d ls sep fa h kvs parent_key)
      else Option.bind (list_elems a h) (\<lambda>vs.
             Option.bind
               (hflatten_list_values d ls sep fa (fst (alloc (HDict []) h))
                  (snd (alloc (HDict []) h)) vs parent_key)
               (hemit_items sep parent_key fa (fst (alloc (HDict []) h)))))"
| "hflatten_dict_items d ls sep fa h [] parent_key = Some h"
| "hflatten_dict_items d ls sep fa h ((key, value) # kvs) parent_key =
     Option.bind (hflatten_inner d ls sep fa h value (new_key sep parent_key key))
       (\<lambda>h'. hflatten_dict_items d ls sep fa h' kvs parent_key)"
| "hflatten_list_values d ls sep fa la h [] parent_key = Some h"
| "hflatten_list_values d ls sep fa la h (value # vs) parent_key =
     Option.bind
       (if is_dict h value
        then Option.bind
               (hflatten_inner d ls sep fa (snd (alloc (HDict []) h)) value parent_key)
               (hcollect_element sep parent_key fa la (fst (alloc (HDict []) h)))
        else hcollect_scalar d ls la parent_key h value)
       (\<lambda>h'. hflatten_list_values d ls sep fa la h' vs parent_key)"

text \<open>
  \<open>_flatten_data\<close> creates \<open>flat_dict\<close>, calls \<open>_flatten_inner\<close> on the argument and returns
  \<open>flat_dict\<close>: the result is the store afterwards and the value returned.
\<close>

definition hflatten_data ::
  "nat \<Rightarrow> (json list \<Rightarrow> string) \<Rightarrow> string \<Rightarrow> heap \<Rightarrow> hval \<Rightarrow> (heap \<times> hval) option" where
  "hflatten_data d ls sep h data =
     (case alloc (HDict []) h of
        (flat_dict, h1) \<Rightarrow>
          map_option (\<lambda>h'. (h', HRef flat_dict)) (hflatten_inner d ls sep flat_dict h1 data []))"

text \<open>
  \<open>stands_for n h v t\<close>: in the store \<open>h\<close> the value \<open>v\<close> is the tree \<open>t\<close>, built from objects
  at addresses below \<open>n\<close> (one object for each list and dictionary of the tree).
  \<open>depth t\<close> is the number of nested calls that \<open>_flatten_inner\<close> needs below the first one.
\<close>

fun stands_for :: "nat \<Rightarrow> heap \<Rightarrow> hval \<Rightarrow> json \<Rightarrow> bool"
  and stand_for :: "nat \<Rightarrow> heap \<Rightarrow> hval list \<Rightarrow> json list \<Rightarrow> bool"
  and items_stand_for :: "nat \<Rightarrow> heap \<Rightarrow> (string \<times> hval) list \<Rightarrow> (string \<times> json) list \<Rightarrow> bool"
where
  "stands_for n h v (Leaf s) = (v = HScalar s)"
| "stands_for n h v (JList ts) =
     (case v of
        HRef a \<Rightarrow> a < n \<and> (case h ! a of HList vs \<Rightarrow> stand_for n h vs ts | HDict kvs \<Rightarrow> False)
      | HScalar s \<Rightarrow> False)"
| "stands_for n h v (JDict kts) =
     (case v of
        HRef a \<Rightarrow> a < n \<and> (case h ! a of HDict kvs \<Rightarrow> items_stand_for n h kvs kts | HList vs \<Rightarrow> False)
      | HScalar s \<Rightarrow> False)"
| "stand_for n h vs [] = (vs = [])"
| "stand_for n h vs (t # ts) =
     (case vs of [] \<Rightarrow> False | v # vs' \<Rightarrow> stands_for n h v t \<and> stand_for n h vs' ts)"
| "items_stand_for n h kvs [] = (kvs = [])"
| "items_stand_for n h kvs ((k, t) # kts) =
     (case kvs of
        [] \<Rightarrow> False
      | (k', v) # kvs' \<Rightarrow> k' = k \<and> stands_for n h v t \<and> items_stand_for n h kvs' kts)"

fun depth :: "json \<Rightarrow> nat"
  and depth_list :: "json list \<Rightarrow> nat"
  and depth_items :: "(string \<times> json) list \<Rightarrow> nat"
where
  "depth (Leaf s) = 0"
| "depth (JList ts) = Suc (depth_list ts)"
| "depth (JDict kts) = Suc (depth_items kts)"
| "depth_list [] = 0"
| "depth_list (t # ts) = max (depth t) (depth_list ts)"
| "depth_items [] = 0"
| "depth_items ((k, t) # kts) = max (depth t) (depth_items kts)"

text \<open>
  The object that holds a flat dictionary, and the relation between \<open>list_items\<close> in the
  store and \<open>list_items\<close> as a value: the dictionary at \<open>la\<close> has the same keys in the same
  order, and the value of each key is the address of a list of its own, above \<open>la\<close> and below
  \<open>m\<close>, that holds the scalars collected for the key.
\<close>

definition flat_obj :: "flat \<Rightarrow> hobj" where
  "flat_obj fd = HDict (map (\<lambda>(k, s). (k, HScalar s)) fd)"

fun items_rel :: "nat \<Rightarrow> nat \<Rightarrow> heap \<Rightarrow> (string \<times> hval) list \<Rightarrow> list_items \<Rightarrow> bool" where
  "items_rel la m h [] [] = True"
| "items_rel la m h ((k, HRef b) # kvs) ((k', xs) # li) =
     (k = k' \<and> la < b \<and> b < m \<and> h ! b = HList (map HScalar xs) \<and> HRef b \<notin> snd ` set kvs
      \<and> items_rel la m h kvs li)"
| "items_rel la m h kvs li = False"

definition items_at :: "nat \<Rightarrow> nat \<Rightarrow> heap \<Rightarrow> list_items \<Rightarrow> bool" where
  "items_at la m h li =
     (la < length h \<and> m \<le> length h \<and> (\<exists>kvs. h ! la = HDict kvs \<and> items_rel la m h kvs li))"

section \<open>Association lists as dictionaries\<close>

declare str_nat.simps [simp del]

lemma startswith_append [simp]: "startswith (r @ k) r"
  by (simp add: startswith_def)

lemma update_fresh: "k \<notin> fst ` set al \<Longrightarrow> AList.update k v al = al @ [(k, v)]"
  by (induction al) auto

lemma fold_update_fresh:
  "distinct (map fst r) \<Longrightarrow> inj c \<Longrightarrow> c ` fst ` set r \<inter> fst ` set al = {} \<Longrightarrow>
   fold (\<lambda>(k, v). AList.update (c k) v) r al = al @ map (\<lambda>(k, v). (c k, v)) r"
proof (induction r arbitrary: al)
  case Nil
  then show ?case by simp
next
  case (Cons x r)
  obtain k v where x: "x = (k, v)" by (cases x)
  from Cons.prems have fresh: "c k \<notin> fst ` set al" by (auto simp: x)
  from Cons.prems have "k \<notin> fst ` set r" by (simp add: x)
  then have "c k \<notin> c ` fst ` set r"
    using \<open>inj c\<close> by (force simp: inj_eq)
  with Cons.prems have "c ` fst ` set r \<inter> fst ` set (al @ [(c k, v)]) = {}"
    by (auto simp: x)
  with Cons.prems have "fold (\<lambda>(k, v). AList.update (c k) v) r (al @ [(c k, v)])
        = (al @ [(c k, v)]) @ map (\<lambda>(k, v). (c k, v)) r"
    by (intro Cons.IH) (auto simp: x)
  then show ?case by (simp add: x update_fresh [OF fresh])
qed

lemma update_pointwise:
  "k0 \<in> set ks \<Longrightarrow> distinct ks \<Longrightarrow> inj c \<Longrightarrow>
   AList.update (c k0) v (map (\<lambda>k. (c k, w k)) ks)
   = map (\<lambda>k. (c k, if k = k0 then v else w k)) ks"
  by (induction ks) (auto simp: inj_eq)

lemma fold_update_pointwise:
  "distinct (map fst r) \<Longrightarrow> fst ` set r \<subseteq> set ks \<Longrightarrow> distinct ks \<Longrightarrow> inj c \<Longrightarrow>
   fold (\<lambda>(k, v). AList.update (c k) v) r (map (\<lambda>k. (c k, w k)) ks)
   = map (\<lambda>k. (c k, case map_of r k of Some v \<Rightarrow> v | None \<Rightarrow> w k)) ks"
proof (induction r arbitrary: w)
  case Nil
  then show ?case by simp
next
  case (Cons x r)
  obtain k' v where x: "x = (k', v)" by (cases x)
  from Cons.prems have k': "k' \<in> set ks" and fresh: "map_of r k' = None"
    by (auto simp: x map_of_eq_None_iff)
  have "fold (\<lambda>(k, v). AList.update (c k) v) r (map (\<lambda>k. (c k, if k = k' then v else w k)) ks)
        = map (\<lambda>k. (c k, case map_of r k of Some v \<Rightarrow> v | None \<Rightarrow> if k = k' then v else w k)) ks"
    using Cons.prems by (intro Cons.IH) (auto simp: x)
  also have "\<dots> = map (\<lambda>k. (c k, case map_of (x # r) k of Some v \<Rightarrow> v | None \<Rightarrow> w k)) ks"
    using fresh by (auto simp: x)
  finally show ?case
    using k' Cons.prems by (simp add: x update_pointwise)
qed


lemma map_of_keys: "k \<in> set ks \<Longrightarrow> map_of (map (\<lambda>k. (k, f k)) ks) k = Some (f k)"
  by (induction ks) auto

lemma case_map_of_present:
  "k \<in> fst ` set r \<Longrightarrow>
   (case map_of r k of Some v \<Rightarrow> F v | None \<Rightarrow> d) = F (the (map_of r k))"
  by (cases "map_of r k") (auto simp: map_of_eq_None_iff)

lemma pairs_of_keys:
  "distinct (map fst r) \<Longrightarrow>
   map (\<lambda>k. F k (the (map_of r k))) (map fst r) = map (\<lambda>(k, v). F k v) r"
  by (induction r) (auto simp: rev_image_eqI)

lemma list_items_append_pointwise:
  "k0 \<in> set ks \<Longrightarrow> distinct ks \<Longrightarrow>
   list_items_append k0 v (map (\<lambda>k. (k, g k)) ks)
   = map (\<lambda>k. (k, if k = k0 then g k @ [v] else g k)) ks"
proof -
  assume k0: "k0 \<in> set ks" and d: "distinct ks"
  have "AList.map_entry k0 (\<lambda>vs. vs @ [v]) (map (\<lambda>k. (k, g k)) ks)
        = map (\<lambda>k. (k, if k = k0 then g k @ [v] else g k)) ks"
    using k0 d by (induction ks) auto
  then show ?thesis
    using k0 by (simp add: list_items_append_def map_of_keys)
qed

lemma collect_items_pointwise:
  "distinct (map fst r) \<Longrightarrow> fst ` set r \<subseteq> set ks \<Longrightarrow> distinct ks \<Longrightarrow>
   collect_items r (map (\<lambda>k. (k, g k)) ks)
   = map (\<lambda>k. (k, case map_of r k of Some v \<Rightarrow> g k @ [v] | None \<Rightarrow> g k)) ks"
  unfolding collect_items_def
proof (induction r arbitrary: g)
  case Nil
  then show ?case by simp
next
  case (Cons x r)
  obtain k' v where x: "x = (k', v)" by (cases x)
  from Cons.prems have k': "k' \<in> set ks" and fresh: "map_of r k' = None"
    by (auto simp: x map_of_eq_None_iff)
  have "fold (\<lambda>(k, v). list_items_append k v) r
          (map (\<lambda>k. (k, if k = k' then g k @ [v] else g k)) ks)
        = map (\<lambda>k. (k, case map_of r k of Some v' \<Rightarrow> (if k = k' then g k @ [v] else g k) @ [v']
                        | None \<Rightarrow> if k = k' then g k @ [v] else g k)) ks"
    using Cons.prems by (intro Cons.IH) (auto simp: x)
  also have "\<dots> = map (\<lambda>k. (k, case map_of (x # r) k of Some v \<Rightarrow> g k @ [v] | None \<Rightarrow> g k)) ks"
    using fresh by (auto simp: x)
  finally show ?case
    using k' Cons.prems by (simp add: x list_items_append_pointwise)
qed

lemma list_items_append_fresh:
  "k \<notin> fst ` set li \<Longrightarrow> list_items_append k v li = li @ [(k, [v])]"
proof -
  assume fresh: "k \<notin> fst ` set li"
  then have none: "map_of li k = None" by (simp add: map_of_eq_None_iff)
  from fresh have upd: "AList.update k [] li = li @ [(k, [])]"
    by (induction li) auto
  from fresh have "AList.map_entry k (\<lambda>vs. vs @ [v]) (li @ [(k, [])]) = li @ [(k, [v])]"
    by (induction li) auto
  then show ?thesis by (simp add: list_items_append_def none upd)
qed

lemma collect_items_fresh:
  "distinct (map fst r) \<Longrightarrow> fst ` set r \<inter> fst ` set li = {} \<Longrightarrow>
   collect_items r li = li @ map (\<lambda>(k, v). (k, [v])) r"
  unfolding collect_items_def
proof (induction r arbitrary: li)
  case Nil
  then show ?case by simp
next
  case (Cons x r)
  obtain k v where x: "x = (k, v)" by (cases x)
  from Cons.prems have fresh: "k \<notin> fst ` set li" by (auto simp: x)
  have "fold (\<lambda>(k, v). list_items_append k v) r (li @ [(k, [v])])
        = (li @ [(k, [v])]) @ map (\<lambda>(k, v). (k, [v])) r"
    using Cons.prems by (intro Cons.IH) (auto simp: x)
  then show ?case by (simp add: x list_items_append_fresh [OF fresh])
qed

lemma scan_flat_dict_prefixed:
  assumes "distinct (map fst r)"
  shows "scan_flat_dict root (map (\<lambda>(k, v). (root @ k, v)) r) = r"
proof -
  have "scan_flat_dict root (map (\<lambda>(k, v). (root @ k, v)) r)
        = fold (\<lambda>(k, v). AList.update k v) r []"
    unfolding scan_flat_dict_def fold_map
    by (rule arg_cong [where f = "\<lambda>f. fold f r []"]) (auto simp: fun_eq_iff)
  also have "\<dots> = r"
    using fold_update_fresh [OF assms, of "\<lambda>k. k" "[]"] by simp
  finally show ?thesis .
qed

lemma emit_items_pointwise:
  assumes "distinct ks"
  shows "emit_items sep p (map (\<lambda>k. (k, vs k)) ks) (map (\<lambda>k. (p @ sep @ k, h k)) ks)
         = map (\<lambda>k. (p @ sep @ k, SStr (join '', '' (map py_str (vs k))))) ks"
proof -
  let ?J = "\<lambda>k. SStr (join '', '' (map py_str (vs k)))"
  have "emit_items sep p (map (\<lambda>k. (k, vs k)) ks) (map (\<lambda>k. (p @ sep @ k, h k)) ks)
        = fold (\<lambda>(k, v). AList.update (p @ sep @ k) v) (map (\<lambda>k. (k, ?J k)) ks)
            (map (\<lambda>k. (p @ sep @ k, h k)) ks)"
    unfolding emit_items_def fold_map
    by (rule arg_cong [where f = "\<lambda>f. fold f ks _"]) (auto simp: fun_eq_iff)
  also have "\<dots> = map (\<lambda>k. (p @ sep @ k,
                 case map_of (map (\<lambda>k. (k, ?J k)) ks) k of Some v \<Rightarrow> v | None \<Rightarrow> h k)) ks"
    using assms by (intro fold_update_pointwise) (auto simp: comp_def inj_def)
  also have "\<dots> = map (\<lambda>k. (p @ sep @ k, ?J k)) ks"
    by (simp add: map_of_keys)
  finally show ?thesis .
qed

lemma flatten_scalar_dict:
  "p \<noteq> [] \<Longrightarrow>
   flatten_dict_items ls sep (map (\<lambda>(k, s). (k, Leaf s)) r) p fd
   = fold (\<lambda>(k, s). AList.update (p @ sep @ k) s) r fd"
  by (induction r arbitrary: fd) (auto simp: new_key_def)

lemma flatten_list_values_first:
  assumes "p \<noteq> []" "distinct (map fst r)"
  shows "flatten_list_values ls sep (scalar_dict r # vs) p [] []
         = flatten_list_values ls sep vs p
             (map (\<lambda>(k, v). (k, [v])) r) (map (\<lambda>(k, v). (p @ sep @ k, v)) r)"
proof -
  have fd: "flatten_dict_items ls sep (map (\<lambda>(k, s). (k, Leaf s)) r) p []
            = map (\<lambda>(k, v). (p @ sep @ k, v)) r"
    using fold_update_fresh [OF assms(2), of "\<lambda>k. p @ sep @ k" "[]"]
    by (simp add: flatten_scalar_dict [OF assms(1)] inj_def)
  have sc: "scan_flat_dict (p @ sep) (map (\<lambda>(k, v). (p @ sep @ k, v)) r) = r"
    using scan_flat_dict_prefixed [OF assms(2), of "p @ sep"] by simp
  have li: "collect_items r [] = map (\<lambda>(k, v). (k, [v])) r"
    using collect_items_fresh [OF assms(2), of "[]"] by simp
  show ?thesis
    unfolding scalar_dict_def flatten_inner.simps flatten_list_values.simps Let_def fd sc li ..
qed

lemma flatten_list_values_step:
  assumes "p \<noteq> []" "distinct ks" "distinct (map fst r)" "set (map fst r) = set ks"
  shows "flatten_list_values ls sep (scalar_dict r # vs) p
           (map (\<lambda>k. (k, g k)) ks) (map (\<lambda>k. (p @ sep @ k, h k)) ks)
         = flatten_list_values ls sep vs p
             (map (\<lambda>k. (k, g k @ [the (map_of r k)])) ks)
             (map (\<lambda>k. (p @ sep @ k, the (map_of r k))) ks)"
proof -
  let ?fd = "map (\<lambda>k. (p @ sep @ k, the (map_of r k))) ks"
  let ?fl = "map (\<lambda>k. (k, the (map_of r k))) ks"
  have sub: "fst ` set r \<subseteq> set ks" and mem: "\<And>k. k \<in> set ks \<Longrightarrow> k \<in> fst ` set r"
    using assms(4) by auto
  have "flatten_dict_items ls sep (map (\<lambda>(k, s). (k, Leaf s)) r) p
          (map (\<lambda>k. (p @ sep @ k, h k)) ks)
        = map (\<lambda>k. (p @ sep @ k, case map_of r k of Some v \<Rightarrow> v | None \<Rightarrow> h k)) ks"
    unfolding flatten_scalar_dict [OF assms(1)]
    using assms(3) sub assms(2) by (rule fold_update_pointwise) (simp add: inj_def)
  also have "\<dots> = ?fd"
    by (rule map_cong) (simp_all add: mem case_map_of_present)
  finally have fd: "flatten_dict_items ls sep (map (\<lambda>(k, s). (k, Leaf s)) r) p
          (map (\<lambda>k. (p @ sep @ k, h k)) ks) = ?fd" .
  have "scan_flat_dict (p @ sep) (map (\<lambda>(k, v). ((p @ sep) @ k, v)) ?fl) = ?fl"
    by (rule scan_flat_dict_prefixed) (simp add: comp_def assms(2))
  then have sc: "scan_flat_dict (p @ sep) ?fd = ?fl"
    by (simp add: comp_def)
  have "collect_items ?fl (map (\<lambda>k. (k, g k)) ks)
        = map (\<lambda>k. (k, case map_of ?fl k of Some v \<Rightarrow> g k @ [v] | None \<Rightarrow> g k)) ks"
    by (rule collect_items_pointwise) (auto simp: comp_def assms(2))
  also have "\<dots> = map (\<lambda>k. (k, g k @ [the (map_of r k)])) ks"
    by (rule map_cong) (auto simp: map_of_keys)
  finally have li: "collect_items ?fl (map (\<lambda>k. (k, g k)) ks)
        = map (\<lambda>k. (k, g k @ [the (map_of r k)])) ks" .
  show ?thesis
    unfolding scalar_dict_def flatten_inner.simps flatten_list_values.simps Let_def fd sc li ..
qed

lemma flatten_list_values_uniform:
  assumes "p \<noteq> []" "distinct ks"
    and "\<forall>r\<in>set rs. distinct (map fst r) \<and> set (map fst r) = set ks"
  shows "flatten_list_values ls sep (map scalar_dict rs) p
           (map (\<lambda>k. (k, g k)) ks) (map (\<lambda>k. (p @ sep @ k, h k)) ks)
         = (map (\<lambda>k. (k, g k @ map (\<lambda>r. the (map_of r k)) rs)) ks,
            map (\<lambda>k. (p @ sep @ k, if rs = [] then h k else the (map_of (last rs) k))) ks)"
  using assms(3)
proof (induction rs arbitrary: g h)
  case Nil
  then show ?case by simp
next
  case (Cons r rs)
  then have r: "distinct (map fst r)" "set (map fst r) = set ks"
    and rs: "\<forall>r\<in>set rs. distinct (map fst r) \<and> set (map fst r) = set ks"
    by simp_all
  show ?case
    unfolding list.map flatten_list_values_step [OF assms(1,2) r] Cons.IH [OF rs]
    by simp
qed

lemmas flatten_unfold =
  flatten_data_def new_key_def scan_flat_dict_def startswith_def collect_items_def
  list_items_append_def emit_items_def str_int_def str_nat.simps

section \<open>Lists of mappings\<close>

text \<open>
  A record that holds nothing but a non-empty list of mappings with scalar values and one
  key set, under a non-empty key \<open>p\<close>: the result has exactly the keys \<open>p-k\<close>, in the key
  order of the first element, each with the joined values.
\<close>

lemma flatten_single_uniform_list:
  assumes "p \<noteq> []" and "rs \<noteq> []"
    and "\<forall>r\<in>set rs. distinct (map fst r) \<and> set (map fst r) = K"
  shows "flatten_data ls sep (JDict [(p, JList (map scalar_dict rs))])
         = map (\<lambda>k. (p @ sep @ k, SStr (join '', '' (map (\<lambda>r. py_str (the (map_of r k))) rs))))
             (map fst (hd rs))"
proof -
  from assms(2) obtain r0 rs' where rs: "rs = r0 # rs'" by (cases rs) auto
  let ?ks = "map fst r0"
  from assms(3) have r0: "distinct ?ks" and K: "K = set ?ks"
    by (auto simp: rs)
  from assms(3) have rs': "\<forall>r\<in>set rs'. distinct (map fst r) \<and> set (map fst r) = set ?ks"
    by (simp add: rs K)
  have first: "flatten_list_values ls sep (scalar_dict r0 # map scalar_dict rs') p [] []
      = flatten_list_values ls sep (map scalar_dict rs') p
          (map (\<lambda>k. (k, [the (map_of r0 k)])) ?ks)
          (map (\<lambda>k. (p @ sep @ k, the (map_of r0 k))) ?ks)"
    unfolding flatten_list_values_first [OF assms(1) r0]
      pairs_of_keys [OF r0, of "\<lambda>k v. (k, [v])"] pairs_of_keys [OF r0, of "\<lambda>k v. (p @ sep @ k, v)"] ..
  have "flatten_data ls sep (JDict [(p, JList (map scalar_dict rs))])
        = (case flatten_list_values ls sep (scalar_dict r0 # map scalar_dict rs') p [] [] of
             (li, fd') \<Rightarrow> emit_items sep p li fd')"
    using assms(1) by (simp add: flatten_data_def new_key_def rs)
  also have "\<dots> = map (\<lambda>k. (p @ sep @ k,
        SStr (join '', '' (map py_str ([the (map_of r0 k)] @ map (\<lambda>r. the (map_of r k)) rs'))))) ?ks"
    unfolding first flatten_list_values_uniform [OF assms(1) r0 rs'] prod.case
    by (rule emit_items_pointwise [OF r0])
  finally show ?thesis
    by (simp add: rs comp_def)
qed

section \<open>Lists of scalars\<close>

text \<open>
  C2.  The strings of a list of scalars are collected in \<open>list_items\<close> under the key
  \<open>parent_key\<close>, and the final loop prefixes every key of \<open>list_items\<close> with
  \<open>parent_key\<close> and the separator: \<open>flatten({"p": [1, 2]})\<close> is \<open>{"p-p": "1, 2"}\<close>, with no
  entry under \<open>p\<close>.
\<close>

theorem flatten_scalar_list_key:
  "flatten_data ls ''-'' (JDict [(''p'', JList [Leaf (SInt 1), Leaf (SInt 2)])])
   = [(''p-p'', SStr ''1, 2'')]"
  by (simp add: flatten_unfold)

section \<open>Elements that lack a sub-key\<close>

text \<open>
  C3.  An empty mapping after a non-empty one is not skipped: the scan that follows it reads
  the entries the earlier element left in \<open>flat_dict\<close>, so \<open>flatten({"p": [{"a": 1}, {}]})\<close>
  is \<open>{"p-a": "1, 1"}\<close>, whereas the list without the empty mapping gives \<open>{"p-a": "1"}\<close>.
\<close>

theorem flatten_empty_mapping_recollects:
  "flatten_data ls ''-'' (JDict [(''p'', JList [JDict [(''a'', Leaf (SInt 1))], JDict []])])
     = [(''p-a'', SStr ''1, 1'')]
   \<and> flatten_data ls ''-'' (JDict [(''p'', JList [JDict [(''a'', Leaf (SInt 1))]])])
     = [(''p-a'', SStr ''1'')]"
  by (simp add: flatten_unfold)

text \<open>
  C10.  On \<open>{"p": [{"a": 1}, {"b": 2}]}\<close> the second element has no key \<open>a\<close>, but the scan
  over \<open>flat_dict\<close> after it still finds the entry \<open>p-a\<close> written for the first element
  and collects its value again: the result is \<open>{"p-a": "1, 1", "p-b": "2"}\<close>.
\<close>

theorem flatten_nonuniform_recollects:
  "flatten_data ls ''-''
     (JDict [(''p'', JList [JDict [(''a'', Leaf (SInt 1))], JDict [(''b'', Leaf (SInt 2))]])])
   = [(''p-a'', SStr ''1, 1''), (''p-b'', SStr ''2'')]"
  by (simp add: flatten_unfold)

section \<open>Trees without lists\<close>

lemma fold_update_fresh_keys:
  "distinct (map (\<lambda>(k, v). c k) r) \<Longrightarrow> (\<lambda>(k, v). c k) ` set r \<inter> fst ` set al = {} \<Longrightarrow>
   fold (\<lambda>(k, v). AList.update (c k) v) r al = al @ map (\<lambda>(k, v). (c k, v)) r"
proof (induction r arbitrary: al)
  case Nil
  then show ?case by simp
next
  case (Cons x r)
  obtain k v where x: "x = (k, v)" by (cases x)
  from Cons.prems have fresh: "c k \<notin> fst ` set al" by (auto simp: x)
  from Cons.prems have "(\<lambda>(k, v). c k) ` set r \<inter> fst ` set (al @ [(c k, v)]) = {}"
    by (auto simp: x)
  with Cons.prems have "fold (\<lambda>(k, v). AList.update (c k) v) r (al @ [(c k, v)])
        = (al @ [(c k, v)]) @ map (\<lambda>(k, v). (c k, v)) r"
    by (intro Cons.IH) (auto simp: x)
  then show ?case by (simp add: x update_fresh [OF fresh])
qed

lemma new_key_extend_path: "new_key sep p k = extend_path sep p k"
  by (simp add: new_key_def extend_path_def)

text \<open>
  On a tree without lists the flattener assigns, in traversal order, each leaf to the key
  built from its path, starting from whatever \<open>flat_dict\<close> holds.
\<close>

lemma flatten_no_lists_fold:
  "no_lists t \<Longrightarrow>
   flatten_inner ls sep t p fd
   = fold (\<lambda>(ks, s). AList.update (foldl (extend_path sep) p ks) s) (leaves t) fd"
  "no_lists_items kvs \<Longrightarrow>
   flatten_dict_items ls sep kvs p fd
   = fold (\<lambda>(ks, s). AList.update (foldl (extend_path sep) p ks) s) (leaves_items kvs) fd"
proof (induction t and kvs arbitrary: p fd and p fd rule: no_lists_no_lists_items.induct)
  case (5 k v kvs)
  have "fold (\<lambda>(ks, s). AList.update (foldl (extend_path sep) p ks) s)
          (map (\<lambda>(ks, s). (k # ks, s)) (leaves v)) fd
        = fold (\<lambda>(ks, s). AList.update (foldl (extend_path sep) (extend_path sep p k) ks) s)
            (leaves v) fd"
    unfolding fold_map
    by (rule arg_cong [where f = "\<lambda>f. fold f (leaves v) fd"]) (auto simp: fun_eq_iff)
  with 5 show ?case
    by (simp add: new_key_extend_path)
qed simp_all

text \<open>
  For key lists without an empty key, \<open>joined_path\<close> is \<open>sep.join(keys)\<close>.
\<close>

lemma foldl_extend_path_join:
  "p \<noteq> [] \<Longrightarrow> foldl (extend_path sep) p ks = join sep (p # ks)"
proof (induction ks arbitrary: p)
  case Nil
  then show ?case by simp
next
  case (Cons k ks)
  have "join sep ((p @ sep @ k) # ks) = p @ sep @ join sep (k # ks)"
    by (cases ks) simp_all
  with Cons show ?case by (simp add: extend_path_def)
qed

lemma joined_path_join:
  "\<forall>k\<in>set ks. k \<noteq> [] \<Longrightarrow> joined_path sep ks = join sep ks"
  by (cases ks) (simp_all add: joined_path_def foldl_extend_path_join extend_path_def)

text \<open>
  C6, as amended.  For a tree without lists whose leaves have pairwise different joined
  paths, the result of \<open>flatten\<close> is the list of the leaves in traversal order, each keyed by
  its joined path: one entry per scalar leaf and none for a mapping node.
\<close>

theorem flatten_no_lists:
  assumes "no_lists t"
    and "distinct (map (\<lambda>(ks, s). joined_path sep ks) (leaves t))"
  shows "flatten_data ls sep t = map (\<lambda>(ks, s). (joined_path sep ks, s)) (leaves t)"
proof -
  have "flatten_data ls sep t
        = fold (\<lambda>(ks, s). AList.update (joined_path sep ks) s) (leaves t) []"
    unfolding flatten_data_def joined_path_def by (rule flatten_no_lists_fold(1) [OF assms(1)])
  also have "\<dots> = [] @ map (\<lambda>(ks, s). (joined_path sep ks, s)) (leaves t)"
    using assms(2) by (intro fold_update_fresh_keys) simp_all
  finally show ?thesis by simp
qed

theorem flatten_no_lists_witness:
  "flatten_data (\<lambda>_. []) ''-''
     (JDict [(''a'', JDict [(''b'', Leaf (SInt 1)), (''c'', JDict [(''d'', Leaf SNone)])]),
             (''e'', Leaf (SStr ''x'')), (''f'', JDict [])])
   = [(''a-b'', SInt 1), (''a-c-d'', SNone), (''e'', SStr ''x'')]"
  using flatten_no_lists [of
      "JDict [(''a'', JDict [(''b'', Leaf (SInt 1)), (''c'', JDict [(''d'', Leaf SNone)])]),
              (''e'', Leaf (SStr ''x'')), (''f'', JDict [])]" "''-''" "\<lambda>_. []"]
  by (simp add: joined_path_def extend_path_def)

text \<open>
  C6 as stated fails when two leaves have the same joined path: in
  \<open>{"a": {"b": 1}, "a-b": 2}\<close> both leaves are keyed \<open>a-b\<close>, and the two leaves give one
  entry, holding the value of the later one.
\<close>

theorem flatten_no_lists_counterexample:
  "no_lists (JDict [(''a'', JDict [(''b'', Leaf (SInt 1))]), (''a-b'', Leaf (SInt 2))])
   \<and> leaves (JDict [(''a'', JDict [(''b'', Leaf (SInt 1))]), (''a-b'', Leaf (SInt 2))])
     = [([''a'', ''b''], SInt 1), ([''a-b''], SInt 2)]
   \<and> flatten_data (\<lambda>_. []) ''-''
       (JDict [(''a'', JDict [(''b'', Leaf (SInt 1))]), (''a-b'', Leaf (SInt 2))])
     = [(''a-b'', SInt 2)]"
  by (simp add: flatten_unfold)

section \<open>Rows of the batch\<close>

lemma py_bind_Inr [simp]: "py_bind (Inr v) f = f v"
  by (simp add: py_bind_def)

lemma py_bind_Inl [simp]: "py_bind (Inl e) f = Inl e"
  by (simp add: py_bind_def)

lemma delete_scalar_dict:
  "AList.delete key (map (\<lambda>(k, s). (k, Leaf s)) r)
   = map (\<lambda>(k, s). (k, Leaf s)) (filter (\<lambda>(k, v). k \<noteq> key) r)"
  by (induction r) (auto simp: AList.delete_eq)

lemma pop_keys_scalar_dict:
  "pop_keys keys (scalar_dict r) = Inr (scalar_dict (filter (\<lambda>(k, v). k \<notin> set keys) r))"
proof (induction keys arbitrary: r)
  case Nil
  then show ?case by simp
next
  case (Cons key keys)
  have "filter (\<lambda>(k, v). k \<notin> set keys) (filter (\<lambda>(k, v). k \<noteq> key) r)
        = filter (\<lambda>(k, v). k \<notin> set (key # keys)) r"
    by (induction r) auto
  with Cons [of "filter (\<lambda>(k, v). k \<noteq> key) r"] show ?case
    by (simp add: scalar_dict_def delete_scalar_dict)
qed

lemma format_records_has_fields:
  "list_all has_fields rs \<Longrightarrow> \<exists>rs'. format_records ls rs = Inr rs'"
proof (induction rs)
  case Nil
  then show ?case by simp
next
  case (Cons r rs)
  then obtain rs' where rs': "format_records ls rs = Inr rs'" by auto
  from Cons.prems obtain kvs flds where "r = JDict kvs" "map_of kvs ''fields'' = Some flds"
    by (cases r) auto
  then show ?case by (simp add: rs')
qed

text \<open>
  A detail body of the shape \<open>{"data": [{"fields": f, ...}, ...]}\<close> gives the flattened \<open>f\<close>
  of its first record without the keys of \<open>remove_keys\<close>.
\<close>

lemma format_row_wf:
  assumes "map_of kvs ''data'' = Some (JList (JDict rk # rs))"
    and "map_of rk ''fields'' = Some flds"
    and "list_all has_fields rs"
  shows "format_row ls (JDict kvs)
         = Inr (scalar_dict (filter (\<lambda>(k, v). k \<notin> set remove_keys) (flatten_data ls ''-'' flds)))"
proof -
  from assms(3) obtain rs' where rs': "format_records ls rs = Inr rs'"
    using format_records_has_fields by blast
  let ?d = "JDict (AList.update ''fields'' (scalar_dict (flatten_data ls ''-'' flds))
                     (AList.delete ''fields'' rk))"
  have fd: "format_data ls (JDict kvs) = Inr (JDict (AList.update ''data'' (JList (?d # rs')) kvs))"
    by (simp add: assms(1,2) rs')
  show ?thesis
    unfolding format_row_def fd
    by (simp add: update_conv' pop_keys_scalar_dict)
qed

lemma wf_body_row:
  "wf_body body \<Longrightarrow> \<exists>row. format_row ls body = Inr row"
proof (cases body)
  case (JDict kvs)
  assume "wf_body body"
  with JDict obtain r rs where data: "map_of kvs ''data'' = Some (JList (r # rs))"
    and all: "list_all has_fields (r # rs)"
    by (auto split: option.splits json.splits list.splits)
  from all obtain rk flds where "r = JDict rk" "map_of rk ''fields'' = Some flds"
    by (cases r) auto
  with data all show ?thesis
    using format_row_wf [of kvs rk rs flds ls] by (simp add: JDict)
qed simp_all

lemma map_of_filter_keys:
  "k \<notin> set keys \<Longrightarrow> map_of (filter (\<lambda>(k, v). k \<notin> set keys) xs) k = map_of xs k"
  by (induction xs) auto

text \<open>
  C7.  For a detail body whose first record has the fields \<open>flds\<close>, the row that the loop
  appends is the flattened \<open>flds\<close> with the entries of the five keys \<open>uuid\<close>,
  \<open>type-primary\<close>, \<open>country-primary\<close>, \<open>profile-overview\<close> and \<open>profile-overview-html\<close>
  taken out: none of the five is a key of the row, and every other key has the entry it has
  in the flattened record, in the same order.
\<close>

theorem format_row_removes_denylist:
  assumes "map_of kvs ''data'' = Some (JList (JDict rk # rs))"
    and "map_of rk ''fields'' = Some flds"
    and "list_all has_fields rs"
  shows "\<exists>row. format_row ls (JDict kvs) = Inr (scalar_dict row)
           \<and> row = filter (\<lambda>(k, v). k \<notin> set remove_keys) (flatten_data ls ''-'' flds)
           \<and> (\<forall>k\<in>set remove_keys. k \<notin> fst ` set row)
           \<and> (\<forall>k. k \<notin> set remove_keys \<longrightarrow> map_of row k = map_of (flatten_data ls ''-'' flds) k)"
proof -
  let ?flat = "flatten_data ls ''-'' flds"
  let ?row = "filter (\<lambda>(k, v). k \<notin> set remove_keys) ?flat"
  have "map_of ?row k = map_of ?flat k" if "k \<notin> set remove_keys" for k
    using that by (rule map_of_filter_keys)
  moreover have "\<forall>k\<in>set remove_keys. k \<notin> fst ` set ?row"
    by auto
  ultimately show ?thesis
    using format_row_wf [OF assms, of ls] by blast
qed

theorem format_row_removes_denylist_witness:
  "\<exists>row. format_row (\<lambda>_. [])
            (JDict [(''data'', JList [JDict [(''id'', Leaf (SStr ''7'')),
               (''fields'', JDict [(''id'', Leaf (SInt 7)), (''uuid'', Leaf (SStr ''u'')),
                  (''type'', JList [JDict [(''name'', Leaf (SStr ''Flood'')),
                                          (''primary'', Leaf (SBool True))]]),
                  (''profile'', JDict [(''overview'', Leaf (SStr ''o''))])])]])])
          = Inr (scalar_dict row)
        \<and> row = [(''id'', SInt 7), (''type-name'', SStr ''Flood'')]"
  using format_row_removes_denylist [of
      "[(''data'', JList [JDict [(''id'', Leaf (SStr ''7'')),
               (''fields'', JDict [(''id'', Leaf (SInt 7)), (''uuid'', Leaf (SStr ''u'')),
                  (''type'', JList [JDict [(''name'', Leaf (SStr ''Flood'')),
                                          (''primary'', Leaf (SBool True))]]),
                  (''profile'', JDict [(''overview'', Leaf (SStr ''o''))])])]])]"
      "[(''id'', Leaf (SStr ''7'')),
               (''fields'', JDict [(''id'', Leaf (SInt 7)), (''uuid'', Leaf (SStr ''u'')),
                  (''type'', JList [JDict [(''name'', Leaf (SStr ''Flood'')),
                                          (''primary'', Leaf (SBool True))]]),
                  (''profile'', JDict [(''overview'', Leaf (SStr ''o''))])])]"
      "[]"
      "JDict [(''id'', Leaf (SInt 7)), (''uuid'', Leaf (SStr ''u'')),
                  (''type'', JList [JDict [(''name'', Leaf (SStr ''Flood'')),
                                          (''primary'', Leaf (SBool True))]]),
                  (''profile'', JDict [(''overview'', Leaf (SStr ''o''))])]"
      "\<lambda>_. []"]
  by (simp add: flatten_unfold remove_keys_def)

section \<open>Failures of single items\<close>

lemma count_outcome_Cons:
  "count_outcome retr out (d # items)
   = (if outcome retr d = out then 1 else 0) + count_outcome retr out items"
  by (simp add: count_outcome_def)

lemma scrape_loop_skip:
  assumes "wf_item retr d"
    and "outcome retr d = Not_found \<or> outcome retr d = Other_error \<or> outcome retr d = Empty_body"
  shows "\<exists>entry. scrape_loop ls retr (d # rest) (log, rows)
                  = scrape_loop ls retr rest (log @ [entry], rows)"
proof -
  from assms(1) obtain name where name: "item_name d = Inr name"
    by (auto simp: wf_item_def split: sum.splits)
  from assms(2) obtain url where url: "getitem d ''href'' = Inr url"
    by (cases "getitem d ''href''") (auto simp: outcome_def)
  show ?thesis
    using assms(2)
    by (cases "retr url") (auto simp: outcome_def url name split: if_splits)
qed

lemma scrape_loop_keep:
  assumes "wf_item retr d" and "outcome retr d = Detail body"
  shows "\<exists>row. format_row ls body = Inr row
           \<and> scrape_loop ls retr (d # rest) (log, rows)
             = scrape_loop ls retr rest (log, rows @ [row])"
proof -
  from assms have "wf_body body" by (simp add: wf_item_def)
  then obtain row where row: "format_row ls body = Inr row"
    using wf_body_row by blast
  from assms(2) obtain url where url: "getitem d ''href'' = Inr url"
    by (cases "getitem d ''href''") (auto simp: outcome_def)
  with assms(2) have "retr url = Inr body" "truthy body"
    by (auto simp: outcome_def split: sum.splits if_splits)
  then show ?thesis
    by (simp add: url row)
qed

lemma scrape_loop_total:
  assumes "\<forall>d\<in>set items. wf_item retr d"
  shows "\<exists>log'. scrape_loop ls retr items (log, rows)
                  = Inr (log @ log', rows @ kept_rows ls retr items)
           \<and> length log' = count_outcome retr Not_found items
                + count_outcome retr Other_error items + count_outcome retr Empty_body items
           \<and> length (kept_rows ls retr items) + length log' = length items"
  using assms
proof (induction items arbitrary: log rows)
  case Nil
  then show ?case by (simp add: kept_rows_def count_outcome_def)
next
  case (Cons d items)
  then have d: "wf_item retr d" and rest: "\<forall>d\<in>set items. wf_item retr d"
    by simp_all
  from d have "outcome retr d \<noteq> No_href" by (auto simp: wf_item_def)
  then consider
      (skip) "outcome retr d = Not_found \<or> outcome retr d = Other_error \<or> outcome retr d = Empty_body"
    | (keep) body where "outcome retr d = Detail body"
    by (cases "outcome retr d") auto
  then show ?case
  proof cases
    case skip
    then obtain entry where step: "scrape_loop ls retr (d # items) (log, rows)
        = scrape_loop ls retr items (log @ [entry], rows)"
      using scrape_loop_skip [OF d] by blast
    from Cons.IH [OF rest, of "log @ [entry]" rows] obtain log' where
      IH: "scrape_loop ls retr items (log @ [entry], rows)
            = Inr ((log @ [entry]) @ log', rows @ kept_rows ls retr items)"
        "length log' = count_outcome retr Not_found items
                + count_outcome retr Other_error items + count_outcome retr Empty_body items"
        "length (kept_rows ls retr items) + length log' = length items"
      by blast
    have kept: "kept_rows ls retr (d # items) = kept_rows ls retr items"
      using skip by (auto simp: kept_rows_def)
    show ?thesis
      unfolding step kept
      using skip IH by (intro exI [of _ "entry # log'"]) (auto simp: count_outcome_Cons)
  next
    case keep
    then obtain row where row: "format_row ls body = Inr row"
      and step: "scrape_loop ls retr (d # items) (log, rows)
                 = scrape_loop ls retr items (log, rows @ [row])"
      using scrape_loop_keep [OF d] by blast
    from Cons.IH [OF rest, of log "rows @ [row]"] obtain log' where
      IH: "scrape_loop ls retr items (log, rows @ [row])
            = Inr (log @ log', (rows @ [row]) @ kept_rows ls retr items)"
        "length log' = count_outcome retr Not_found items
                + count_outcome retr Other_error items + count_outcome retr Empty_body items"
        "length (kept_rows ls retr items) + length log' = length items"
      by blast
    have kept: "kept_rows ls retr (d # items) = row # kept_rows ls retr items"
      using keep row by (simp add: kept_rows_def)
    show ?thesis
      unfolding step kept
      using keep IH by (intro exI [of _ log']) (simp add: count_outcome_Cons)
  qed
qed

text \<open>
  Where every listed item has \<open>href\<close> and \<open>fields.name\<close>, and every non-empty body that a
  fetch returns has the shape of a detail response, the loop returns: an item whose fetch
  raises an exception with \<open>404\<close> in its text, an item whose fetch raises any other
  exception, and an item whose body is empty each add one log entry and no row, every other
  item adds its row, and the number of rows is the number of listed items minus the numbers
  of the three kinds of skipped items.
\<close>

lemma scrape_loop_skips_failed_items:
  assumes "\<forall>d\<in>set items. wf_item retr d"
  shows "\<exists>log' rows. scrape_loop ls retr items ([], []) = Inr (log', rows)
           \<and> rows = kept_rows ls retr items
           \<and> length rows = length items
               - count_outcome retr Not_found items
               - count_outcome retr Other_error items
               - count_outcome retr Empty_body items
           \<and> length log' = count_outcome retr Not_found items
               + count_outcome retr Other_error items + count_outcome retr Empty_body items"
proof -
  from scrape_loop_total [OF assms, of ls "[]" "[]"] obtain log' where
    "scrape_loop ls retr items ([], []) = Inr (log', kept_rows ls retr items)"
    "length log' = count_outcome retr Not_found items
       + count_outcome retr Other_error items + count_outcome retr Empty_body items"
    "length (kept_rows ls retr items) + length log' = length items"
    by auto
  then show ?thesis
    by (intro exI [of _ log'] exI [of _ "kept_rows ls retr items"]) auto
qed

lemma scrape_loop_skips_failed_items_example:
  "\<exists>log' rows.
     scrape_loop (\<lambda>_. [])
       (\<lambda>url. if url = Leaf (SStr ''u1'') then Inl ''HTTP Error 404: Not Found''
              else if url = Leaf (SStr ''u2'') then Inl ''connection timed out''
              else if url = Leaf (SStr ''u3'') then Inr (JDict [])
              else Inr (JDict [(''data'', JList [JDict [(''fields'',
                     JDict [(''id'', Leaf (SInt 7)), (''uuid'', Leaf (SStr ''u''))])]])]))
       [JDict [(''fields'', JDict [(''name'', Leaf (SStr ''A''))]), (''href'', Leaf (SStr ''u1''))],
        JDict [(''fields'', JDict [(''name'', Leaf (SStr ''B''))]), (''href'', Leaf (SStr ''u2''))],
        JDict [(''fields'', JDict [(''name'', Leaf (SStr ''C''))]), (''href'', Leaf (SStr ''u3''))],
        JDict [(''fields'', JDict [(''name'', Leaf (SStr ''D''))]), (''href'', Leaf (SStr ''u4''))]]
       ([], []) = Inr (log', rows)
     \<and> length rows = 1 \<and> length log' = 3"
  using scrape_loop_skips_failed_items [of
       "[JDict [(''fields'', JDict [(''name'', Leaf (SStr ''A''))]), (''href'', Leaf (SStr ''u1''))],
        JDict [(''fields'', JDict [(''name'', Leaf (SStr ''B''))]), (''href'', Leaf (SStr ''u2''))],
        JDict [(''fields'', JDict [(''name'', Leaf (SStr ''C''))]), (''href'', Leaf (SStr ''u3''))],
        JDict [(''fields'', JDict [(''name'', Leaf (SStr ''D''))]), (''href'', Leaf (SStr ''u4''))]]"
       "\<lambda>url. if url = Leaf (SStr ''u1'') then Inl ''HTTP Error 404: Not Found''
              else if url = Leaf (SStr ''u2'') then Inl ''connection timed out''
              else if url = Leaf (SStr ''u3'') then Inr (JDict [])
              else Inr (JDict [(''data'', JList [JDict [(''fields'',
                     JDict [(''id'', Leaf (SInt 7)), (''uuid'', Leaf (SStr ''u''))])]])])"
       "\<lambda>_. []"]
  by (auto simp del: scrape_loop.simps
        simp add: wf_item_def item_name_def outcome_def count_outcome_def startswith_def)

text \<open>
  C4.  Not every bad record is skipped.  Only \<open>download_json\<close> is inside the \<open>try\<close>: a
  body that is not empty and has no record makes \<open>flat_data["data"][0]\<close> raise
  \<open>IndexError\<close>, a body without \<open>data\<close> makes \<open>_format_data\<close> raise \<open>KeyError\<close>, and a
  failed fetch of an item without \<open>fields.name\<close> makes the handler itself raise \<open>KeyError\<close>
  when it formats its message.  In each case the second of three items ends the loop with
  the exception, and no rows are returned.
\<close>

theorem scrape_loop_bad_record_aborts:
  "scrape_loop ls
     (\<lambda>url. if url = Leaf (SStr ''u2'') then Inr (JDict [(''data'', JList [])])
            else Inr (JDict [(''data'', JList [JDict [(''fields'',
                   JDict [(''id'', Leaf (SInt 7))])]])]))
     [JDict [(''fields'', JDict [(''name'', Leaf (SStr ''A''))]), (''href'', Leaf (SStr ''u1''))],
      JDict [(''fields'', JDict [(''name'', Leaf (SStr ''B''))]), (''href'', Leaf (SStr ''u2''))],
      JDict [(''fields'', JDict [(''name'', Leaf (SStr ''C''))]), (''href'', Leaf (SStr ''u3''))]]
     ([], []) = Inl IndexError
   \<and> scrape_loop ls
     (\<lambda>url. if url = Leaf (SStr ''u2'') then Inr (JDict [(''error'', Leaf (SStr ''x''))])
            else Inr (JDict [(''data'', JList [JDict [(''fields'',
                   JDict [(''id'', Leaf (SInt 7))])]])]))
     [JDict [(''fields'', JDict [(''name'', Leaf (SStr ''A''))]), (''href'', Leaf (SStr ''u1''))],
      JDict [(''fields'', JDict [(''name'', Leaf (SStr ''B''))]), (''href'', Leaf (SStr ''u2''))],
      JDict [(''fields'', JDict [(''name'', Leaf (SStr ''C''))]), (''href'', Leaf (SStr ''u3''))]]
     ([], []) = Inl KeyError
   \<and> scrape_loop ls
     (\<lambda>url. if url = Leaf (SStr ''u2'') then Inl ''HTTP Error 404: Not Found''
            else Inr (JDict [(''data'', JList [JDict [(''fields'',
                   JDict [(''id'', Leaf (SInt 7))])]])]))
     [JDict [(''fields'', JDict [(''name'', Leaf (SStr ''A''))]), (''href'', Leaf (SStr ''u1''))],
      JDict [(''fields'', JDict [(''id'', Leaf (SInt 2))]), (''href'', Leaf (SStr ''u2''))],
      JDict [(''fields'', JDict [(''name'', Leaf (SStr ''C''))]), (''href'', Leaf (SStr ''u3''))]]
     ([], []) = Inl KeyError"
  by (simp add: format_row_def item_name_def flatten_unfold remove_keys_def scalar_dict_def)

section \<open>An empty batch\<close>

text \<open>
  C5.  \<open>generate_dataset\<close> on an empty list of rows raises \<open>IndexError\<close> from
  \<open>disaster_list[0]\<close>; so does \<open>main\<close> when the listing is empty, since it passes the rows on
  as they are.
\<close>

theorem generate_dataset_empty_batch:
  "generate_dataset slugify config temp_dir [] = Inl IndexError
   \<and> main ls (\<lambda>url. Inr (JDict [(''data'', JList [])])) base_url slugify config temp_dir
     = Inl IndexError"
  by (simp add: generate_dataset_def main_def scrape_data_def)

section \<open>What a subtree writes\<close>

lemma startswith_appendD: "startswith x (a @ b) \<Longrightarrow> startswith x a"
proof -
  assume "startswith x (a @ b)"
  then have "take (length a + length b) x = a @ b" by (simp add: startswith_def)
  then have "take (length a) (take (length a + length b) x) = take (length a) (a @ b)" by simp
  then show ?thesis by (simp add: startswith_def min_def)
qed

lemma startswith_split: "startswith y root \<Longrightarrow> y = root @ drop (length root) y"
  by (metis append_take_drop_id startswith_def)

lemma emit_items_distinct:
  "distinct (map fst fd) \<Longrightarrow> distinct (map fst (emit_items sep p li fd))"
  unfolding emit_items_def
  by (induction li arbitrary: fd) (auto simp: distinct_update)

lemma flatten_distinct:
  "distinct (map fst fd) \<Longrightarrow> distinct (map fst (flatten_inner ls sep t pk fd))"
  "distinct (map fst fd) \<Longrightarrow> distinct (map fst (flatten_dict_items ls sep kvs pk fd))"
  "distinct (map fst fd) \<Longrightarrow> distinct (map fst (snd (flatten_list_values ls sep vs pk li fd)))"
  by (induction ls sep t pk fd and ls sep kvs pk fd and ls sep vs pk li fd
      rule: flatten_inner_flatten_dict_items_flatten_list_values.induct)
    (simp_all add: distinct_update emit_items_distinct case_prod_beta Let_def)

lemma emit_items_frame:
  "\<not> startswith x (q @ sep) \<Longrightarrow> map_of (emit_items sep q li fd) x = map_of fd x"
  unfolding emit_items_def
proof (induction li arbitrary: fd)
  case Nil
  then show ?case by simp
next
  case (Cons kv li)
  obtain k vs where kv: "kv = (k, vs)" by (cases kv)
  have "x \<noteq> q @ sep @ k"
    using Cons.prems startswith_append [of "q @ sep" k] by auto
  then show ?case using Cons by (simp add: kv update_conv')
qed

lemma flatten_frame:
  "q \<noteq> [] \<Longrightarrow> x \<noteq> q \<Longrightarrow> \<not> startswith x (q @ sep)
   \<Longrightarrow> map_of (flatten_inner ls sep t q fd) x = map_of fd x"
  "q \<noteq> [] \<Longrightarrow> x \<noteq> q \<Longrightarrow> \<not> startswith x (q @ sep)
   \<Longrightarrow> map_of (flatten_dict_items ls sep kvs q fd) x = map_of fd x"
  "q \<noteq> [] \<Longrightarrow> x \<noteq> q \<Longrightarrow> \<not> startswith x (q @ sep)
   \<Longrightarrow> map_of (snd (flatten_list_values ls sep vs q li fd)) x = map_of fd x"
proof (induction ls sep t q fd and ls sep kvs q fd and ls sep vs q li fd
    rule: flatten_inner_flatten_dict_items_flatten_list_values.induct)
  case (2 ls sep vs parent_key fd)
  then show ?case by (simp add: case_prod_beta emit_items_frame)
next
  case (3 ls sep s parent_key fd)
  then show ?case by (simp add: update_conv')
next
  case (5 ls sep key "value" kvs parent_key fd)
  let ?q = "new_key sep parent_key key"
  from "5.prems" have q: "?q = parent_key @ sep @ key" by (simp add: new_key_def)
  have "startswith ?q (parent_key @ sep)"
    using startswith_append [of "parent_key @ sep" key] by (simp add: q)
  with "5.prems" have 1: "x \<noteq> ?q" by auto
  have 2: "\<not> startswith x (?q @ sep)"
    using "5.prems"(3) startswith_appendD [of x "parent_key @ sep" "key @ sep"] by (auto simp: q)
  have 3: "?q \<noteq> []" using "5.prems"(1) by (simp add: q)
  show ?case
    using "5.IH"(1) [OF 3 1 2] "5.IH"(2) [OF "5.prems"] by simp
next
  case (7 ls sep kvs vs parent_key li fd)
  then show ?case by (simp add: Let_def)
qed simp_all

lemma flatten_dict_items_frame:
  "\<forall>(k, t)\<in>set kvs. new_key sep pk k \<noteq> [] \<and> x \<noteq> new_key sep pk k
       \<and> \<not> startswith x (new_key sep pk k @ sep)
   \<Longrightarrow> map_of (flatten_dict_items ls sep kvs pk fd) x = map_of fd x"
  by (induction kvs arbitrary: fd) (auto simp: flatten_frame(1))

lemma flatten_dict_items_append:
  "flatten_dict_items ls sep (xs @ ys) pk fd
   = flatten_dict_items ls sep ys pk (flatten_dict_items ls sep xs pk fd)"
  by (induction xs arbitrary: fd) auto

section \<open>A uniform list with entries already collected\<close>

lemma fold_update_prefixed:
  "distinct (map fst r) \<Longrightarrow>
   map_of (fold (\<lambda>(k, s). AList.update (root @ k) s) r fd) (root @ x)
   = (case map_of r x of Some s \<Rightarrow> Some s | None \<Rightarrow> map_of fd (root @ x))"
proof (induction r arbitrary: fd)
  case Nil
  then show ?case by simp
next
  case (Cons kv r)
  obtain k s where kv: "kv = (k, s)" by (cases kv)
  from Cons.prems have d: "distinct (map fst r)" and fresh: "map_of r k = None"
    by (auto simp: kv map_of_eq_None_iff)
  show ?case
    using Cons.IH [OF d, of "AList.update (root @ k) s fd"] fresh
    by (auto simp: kv update_conv' split: option.splits)
qed

lemma fold_update_other:
  "\<not> startswith y root \<Longrightarrow>
   map_of (fold (\<lambda>(k, s). AList.update (root @ k) s) r fd) y = map_of fd y"
proof (induction r arbitrary: fd)
  case Nil
  then show ?case by simp
next
  case (Cons kv r)
  obtain k s where kv: "kv = (k, s)" by (cases kv)
  have "y \<noteq> root @ k" using Cons.prems by auto
  then show ?case using Cons by (simp add: kv update_conv')
qed

lemma fold_update_distinct:
  "distinct (map fst fd) \<Longrightarrow> distinct (map fst (fold (\<lambda>(k, s). AList.update (c k) s) r fd))"
  by (induction r arbitrary: fd) (auto simp: distinct_update)

lemma scan_fold_map_of:
  "distinct (map fst fd) \<Longrightarrow>
   map_of (fold (\<lambda>(k, v) acc. if startswith k root
                   then AList.update (drop (length root) k) v acc else acc) fd acc) x
   = (case map_of fd (root @ x) of Some v \<Rightarrow> Some v | None \<Rightarrow> map_of acc x)"
proof (induction fd arbitrary: acc)
  case Nil
  then show ?case by simp
next
  case (Cons kv fd)
  obtain k v where kv: "kv = (k, v)" by (cases kv)
  from Cons.prems have d: "distinct (map fst fd)" and fresh: "map_of fd k = None"
    by (auto simp: kv map_of_eq_None_iff)
  show ?case
  proof (cases "startswith k root")
    case True
    then have k: "k = root @ drop (length root) k" by (rule startswith_split)
    show ?thesis
    proof (cases "root @ x = k")
      case True
      then have "drop (length root) k = x" by auto
      with True \<open>startswith k root\<close> fresh show ?thesis
        using Cons.IH [OF d, of "AList.update x v acc"] by (simp add: kv update_conv')
    next
      case False
      then have "drop (length root) k \<noteq> x" using k by metis
      with False \<open>startswith k root\<close> show ?thesis
        using Cons.IH [OF d, of "AList.update (drop (length root) k) v acc"]
        by (auto simp: kv update_conv' split: option.splits)
    qed
  next
    case False
    then have "root @ x \<noteq> k" by auto
    with False show ?thesis
      using Cons.IH [OF d, of acc] by (simp add: kv)
  qed
qed

lemma scan_flat_dict_map_of:
  "distinct (map fst fd) \<Longrightarrow> map_of (scan_flat_dict root fd) x = map_of fd (root @ x)"
  unfolding scan_flat_dict_def by (simp add: scan_fold_map_of split: option.splits)

lemma scan_flat_dict_distinct: "distinct (map fst (scan_flat_dict root fd))"
proof -
  have "distinct (map fst acc) \<Longrightarrow>
        distinct (map fst (fold (\<lambda>(k, v) acc. if startswith k root
                   then AList.update (drop (length root) k) v acc else acc) fd acc))" for acc
    by (induction fd arbitrary: acc) (auto simp: distinct_update)
  from this [of "[]"] show ?thesis by (simp add: scan_flat_dict_def)
qed

lemma filled_map_of:
  "filled li \<Longrightarrow> map_of li x = (if collected li x = [] then None else Some (collected li x))"
  by (cases "map_of li x") (auto simp: collected_def filled_def dest!: map_of_SomeD)

lemma list_items_append_map_of:
  "map_of (list_items_append k v li) x
   = (if x = k then Some (collected li k @ [v]) else map_of li x)"
  by (auto simp: list_items_append_def map_of_map_entry update_conv' collected_def
      split: option.splits)

lemma list_items_append_filled: "filled li \<Longrightarrow> filled (list_items_append k v li)"
proof -
  assume f: "filled li"
  let ?li = "list_items_append k v li"
  have d: "distinct (map fst ?li)"
    using f by (auto simp: list_items_append_def filled_def intro!: distinct_map_entry distinct_update)
  have "vs \<noteq> []" if "(x, vs) \<in> set ?li" for x vs
  proof -
    from that d have m: "map_of ?li x = Some vs" by simp
    show ?thesis
    proof (cases "x = k")
      case True
      with m show ?thesis by (auto simp: list_items_append_map_of)
    next
      case False
      with m have "map_of li x = Some vs" by (simp add: list_items_append_map_of)
      then have "(x, vs) \<in> set li" by (rule map_of_SomeD)
      with f show ?thesis by (auto simp: filled_def)
    qed
  qed
  with d show ?thesis by (auto simp: filled_def)
qed

lemma collect_items_collected:
  "distinct (map fst fl) \<Longrightarrow>
   collected (collect_items fl li) x
   = collected li x @ (case map_of fl x of Some v \<Rightarrow> [v] | None \<Rightarrow> [])"
  unfolding collect_items_def
proof (induction fl arbitrary: li)
  case Nil
  then show ?case by simp
next
  case (Cons kv fl)
  obtain k v where kv: "kv = (k, v)" by (cases kv)
  from Cons.prems have d: "distinct (map fst fl)" and fresh: "map_of fl k = None"
    by (auto simp: kv map_of_eq_None_iff)
  have "collected (list_items_append k v li) x
        = (if x = k then collected li k @ [v] else collected li x)"
    by (simp add: collected_def list_items_append_map_of)
  then show ?case
    using Cons.IH [OF d, of "list_items_append k v li"] fresh by (auto simp: kv)
qed

lemma collect_items_filled: "filled li \<Longrightarrow> filled (collect_items fl li)"
  unfolding collect_items_def
  by (induction fl arbitrary: li) (auto simp: list_items_append_filled)

lemma emit_items_prefixed:
  "distinct (map fst li) \<Longrightarrow>
   map_of (emit_items sep p li fd) (p @ sep @ x)
   = (case map_of li x of
        Some vs \<Rightarrow> Some (SStr (join '', '' (map py_str vs)))
      | None \<Rightarrow> map_of fd (p @ sep @ x))"
  unfolding emit_items_def
proof (induction li arbitrary: fd)
  case Nil
  then show ?case by simp
next
  case (Cons kv li)
  obtain k vs where kv: "kv = (k, vs)" by (cases kv)
  from Cons.prems have d: "distinct (map fst li)" and fresh: "map_of li k = None"
    by (auto simp: kv map_of_eq_None_iff)
  show ?case
    using Cons.IH [OF d, of "AList.update (p @ sep @ k) (SStr (join '', '' (map py_str vs))) fd"] fresh
    by (auto simp: kv update_conv' split: option.splits)
qed

lemma flatten_list_values_element:
  assumes "p \<noteq> []" and "distinct (map fst fd)" and "filled li" and "distinct (map fst r)"
  shows "\<exists>li1 fd1.
           flatten_list_values ls sep (scalar_dict r # vs) p li fd
           = flatten_list_values ls sep vs p li1 fd1
         \<and> distinct (map fst fd1) \<and> filled li1
         \<and> (\<forall>x. collected li1 x = collected li x
               @ (case map_of r x of
                    Some s \<Rightarrow> [s]
                  | None \<Rightarrow> (case map_of fd (p @ sep @ x) of Some v \<Rightarrow> [v] | None \<Rightarrow> [])))
         \<and> (\<forall>x. map_of r x = None \<longrightarrow> map_of fd1 (p @ sep @ x) = map_of fd (p @ sep @ x))
         \<and> (\<forall>y. \<not> startswith y (p @ sep) \<longrightarrow> map_of fd1 y = map_of fd y)"
proof -
  let ?root = "p @ sep"
  let ?fd1 = "fold (\<lambda>(k, s). AList.update (p @ sep @ k) s) r fd"
  let ?fl = "scan_flat_dict ?root ?fd1"
  let ?li1 = "collect_items ?fl li"
  have fd1: "flatten_inner ls sep (scalar_dict r) p fd = ?fd1"
    using flatten_scalar_dict [OF assms(1), of ls sep r fd] by (simp add: scalar_dict_def)
  have d1: "distinct (map fst ?fd1)"
    using assms(2) by (rule fold_update_distinct)
  have pre: "map_of ?fd1 (p @ sep @ x)
             = (case map_of r x of Some s \<Rightarrow> Some s | None \<Rightarrow> map_of fd (p @ sep @ x))" for x
    using fold_update_prefixed [OF assms(4), of "p @ sep" fd x] by (simp cong: option.case_cong)
  have fl: "map_of ?fl x = map_of ?fd1 (p @ sep @ x)" for x
    using scan_flat_dict_map_of [OF d1, of ?root x] by simp
  have col: "collected ?li1 x = collected li x
      @ (case map_of r x of
           Some s \<Rightarrow> [s]
         | None \<Rightarrow> (case map_of fd (p @ sep @ x) of Some v \<Rightarrow> [v] | None \<Rightarrow> []))" for x
    unfolding collect_items_collected [OF scan_flat_dict_distinct] fl pre
    by (simp split: option.splits)
  have "flatten_list_values ls sep (scalar_dict r # vs) p li fd
        = flatten_list_values ls sep vs p ?li1 ?fd1"
    using fd1 by (simp add: scalar_dict_def Let_def)
  moreover have "filled ?li1" using assms(3) by (rule collect_items_filled)
  moreover have "\<forall>x. map_of r x = None \<longrightarrow> map_of ?fd1 (p @ sep @ x) = map_of fd (p @ sep @ x)"
    by (simp add: pre)
  moreover have "\<forall>y. \<not> startswith y ?root \<longrightarrow> map_of ?fd1 y = map_of fd y"
    using fold_update_other [of _ "p @ sep" r fd] by simp
  ultimately show ?thesis
    using d1 col by blast
qed

lemma flatten_list_values_collected:
  assumes "p \<noteq> []"
    and "\<forall>r\<in>set rs. distinct (map fst r) \<and> set (map fst r) = K"
    and "distinct (map fst fd)" and "filled li"
  shows "filled (fst (flatten_list_values ls sep (map scalar_dict rs) p li fd))
         \<and> (\<forall>x. collected (fst (flatten_list_values ls sep (map scalar_dict rs) p li fd)) x
               = collected li x
                 @ (if x \<in> K then map (\<lambda>r. the (map_of r x)) rs
                    else (case map_of fd (p @ sep @ x) of
                            Some v \<Rightarrow> replicate (length rs) v
                          | None \<Rightarrow> [])))
         \<and> (\<forall>x. x \<notin> K \<longrightarrow>
               map_of (snd (flatten_list_values ls sep (map scalar_dict rs) p li fd)) (p @ sep @ x)
               = map_of fd (p @ sep @ x))
         \<and> (\<forall>y. \<not> startswith y (p @ sep) \<longrightarrow>
               map_of (snd (flatten_list_values ls sep (map scalar_dict rs) p li fd)) y
               = map_of fd y)"
  using assms(2,3,4)
proof (induction rs arbitrary: li fd)
  case Nil
  then show ?case by (simp split: option.splits)
next
  case (Cons r rs)
  then have r: "distinct (map fst r)" and K: "set (map fst r) = K"
    and rs: "\<forall>r\<in>set rs. distinct (map fst r) \<and> set (map fst r) = K"
    by simp_all
  have inK: "\<exists>s. map_of r x = Some s" if "x \<in> K" for x
    using that K by (cases "map_of r x") (auto simp: map_of_eq_None_iff)
  have notK: "map_of r x = None" if "x \<notin> K" for x
    using that K by (auto simp: map_of_eq_None_iff)
  from flatten_list_values_element [OF assms(1) Cons.prems(2,3) r, of ls sep "map scalar_dict rs"]
  obtain li1 fd1 where
    step: "flatten_list_values ls sep (scalar_dict r # map scalar_dict rs) p li fd
           = flatten_list_values ls sep (map scalar_dict rs) p li1 fd1"
    and d1: "distinct (map fst fd1)" and f1: "filled li1"
    and col: "\<And>x. collected li1 x = collected li x
               @ (case map_of r x of
                    Some s \<Rightarrow> [s]
                  | None \<Rightarrow> (case map_of fd (p @ sep @ x) of Some v \<Rightarrow> [v] | None \<Rightarrow> []))"
    and same: "\<And>x. map_of r x = None \<Longrightarrow> map_of fd1 (p @ sep @ x) = map_of fd (p @ sep @ x)"
    and other: "\<And>y. \<not> startswith y (p @ sep) \<Longrightarrow> map_of fd1 y = map_of fd y"
    by blast
  let ?res = "flatten_list_values ls sep (map scalar_dict rs) p li1 fd1"
  from Cons.IH [OF rs d1 f1] have
    IH1: "filled (fst ?res)"
    and IH2: "\<And>x. collected (fst ?res) x = collected li1 x
                 @ (if x \<in> K then map (\<lambda>r. the (map_of r x)) rs
                    else (case map_of fd1 (p @ sep @ x) of
                            Some v \<Rightarrow> replicate (length rs) v
                          | None \<Rightarrow> []))"
    and IH3: "\<And>x. x \<notin> K \<Longrightarrow> map_of (snd ?res) (p @ sep @ x) = map_of fd1 (p @ sep @ x)"
    and IH4: "\<And>y. \<not> startswith y (p @ sep) \<Longrightarrow> map_of (snd ?res) y = map_of fd1 y"
    by blast+
  have c: "collected (fst ?res) x = collected li x
                 @ (if x \<in> K then map (\<lambda>r. the (map_of r x)) (r # rs)
                    else (case map_of fd (p @ sep @ x) of
                            Some v \<Rightarrow> replicate (length (r # rs)) v
                          | None \<Rightarrow> []))" for x
  proof (cases "x \<in> K")
    case True
    from inK [OF True] obtain s where "map_of r x = Some s" ..
    with True show ?thesis using IH2 [of x] col [of x] by simp
  next
    case False
    then show ?thesis
      using IH2 [of x] col [of x] notK [OF False] same [OF notK [OF False]]
      by (simp split: option.splits)
  qed
  have "map_of (snd ?res) (p @ sep @ x) = map_of fd (p @ sep @ x)" if "x \<notin> K" for x
    using IH3 [OF that] same [OF notK [OF that]] by simp
  moreover have "map_of (snd ?res) y = map_of fd y" if "\<not> startswith y (p @ sep)" for y
    using IH4 [OF that] other [OF that] by simp
  moreover have eq: "map scalar_dict (r # rs) = scalar_dict r # map scalar_dict rs" by simp
  ultimately show ?case
    unfolding eq step using IH1 c by blast
qed

text \<open>
  The list branch on a non-empty list of mappings with scalar values and one key set \<open>K\<close>,
  at a non-empty path \<open>p\<close>, whatever \<open>flat_dict\<close> holds when the list is reached: afterwards
  every \<open>p-k\<close> with \<open>k\<close> in \<open>K\<close> has the joined values of \<open>k\<close>; an entry \<open>p-x\<close> that was
  there before, \<open>x\<close> not in \<open>K\<close>, has been collected once for each element and holds its own
  value joined \<open>len(list)\<close> times; every key that does not start with \<open>p-\<close> has the entry
  it had.
\<close>

lemma uniform_list_branch:
  assumes "p \<noteq> []" and "rs \<noteq> []"
    and "\<forall>r\<in>set rs. distinct (map fst r) \<and> set (map fst r) = K"
    and "distinct (map fst fd)"
  shows "map_of (flatten_inner ls sep (JList (map scalar_dict rs)) p fd) (p @ sep @ x)
         = (if x \<in> K then Some (SStr (join '', '' (map (\<lambda>r. py_str (the (map_of r x))) rs)))
            else map_option (\<lambda>v. SStr (join '', '' (replicate (length rs) (py_str v))))
                   (map_of fd (p @ sep @ x)))"
    and "\<not> startswith y (p @ sep)
         \<Longrightarrow> map_of (flatten_inner ls sep (JList (map scalar_dict rs)) p fd) y = map_of fd y"
proof -
  let ?res = "flatten_list_values ls sep (map scalar_dict rs) p [] fd"
  have f0: "filled []" by (simp add: filled_def)
  from flatten_list_values_collected [OF assms(1,3,4) f0, of ls sep] have
    fl: "filled (fst ?res)"
    and col: "\<And>x. collected (fst ?res) x
               = (if x \<in> K then map (\<lambda>r. the (map_of r x)) rs
                  else (case map_of fd (p @ sep @ x) of
                          Some v \<Rightarrow> replicate (length rs) v
                        | None \<Rightarrow> []))"
    and same: "\<And>x. x \<notin> K \<Longrightarrow> map_of (snd ?res) (p @ sep @ x) = map_of fd (p @ sep @ x)"
    and other: "\<And>y. \<not> startswith y (p @ sep) \<Longrightarrow> map_of (snd ?res) y = map_of fd y"
    by (simp_all add: collected_def)
  have inner: "flatten_inner ls sep (JList (map scalar_dict rs)) p fd
               = emit_items sep p (fst ?res) (snd ?res)"
    by (simp add: case_prod_beta)
  have look: "map_of (fst ?res) x
              = (if collected (fst ?res) x = [] then None else Some (collected (fst ?res) x))" for x
    using fl by (rule filled_map_of)
  have emit: "map_of (emit_items sep p (fst ?res) (snd ?res)) (p @ sep @ x)
              = (case map_of (fst ?res) x of
                   Some vs \<Rightarrow> Some (SStr (join '', '' (map py_str vs)))
                 | None \<Rightarrow> map_of (snd ?res) (p @ sep @ x))"
    using emit_items_prefixed [of "fst ?res" sep p "snd ?res" x] fl
    by (simp add: filled_def)
  show "map_of (flatten_inner ls sep (JList (map scalar_dict rs)) p fd) (p @ sep @ x)
         = (if x \<in> K then Some (SStr (join '', '' (map (\<lambda>r. py_str (the (map_of r x))) rs)))
            else map_option (\<lambda>v. SStr (join '', '' (replicate (length rs) (py_str v))))
                   (map_of fd (p @ sep @ x)))"
  proof (cases "x \<in> K")
    case True
    with assms(2) show ?thesis
      unfolding inner emit look col by (simp add: comp_def)
  next
    case False
    with assms(2) same [OF False] show ?thesis
      unfolding inner emit look col by (cases "map_of fd (p @ sep @ x)") simp_all
  qed
  show "\<not> startswith y (p @ sep)
         \<Longrightarrow> map_of (flatten_inner ls sep (JList (map scalar_dict rs)) p fd) y = map_of fd y"
    unfolding inner by (simp add: emit_items_frame other)
qed

text \<open>So an earlier sibling \<open>type-x\<close> of the list \<open>type\<close> comes out as \<open>"5, 5"\<close>.\<close>

lemma flatten_earlier_sibling_reaggregated:
  "flatten_data ls ''-''
     (JDict [(''type-x'', Leaf (SInt 5)),
             (''type'', JList [JDict [(''id'', Leaf (SInt 1))], JDict [(''id'', Leaf (SInt 2))]])])
   = [(''type-x'', SStr ''5, 5''), (''type-id'', SStr ''1, 2'')]"
  by (simp add: flatten_unfold)

section \<open>A uniform list anywhere in a record\<close>

lemma map_of_dropWhile:
  "map_of kvs k = Some t \<Longrightarrow>
   \<exists>later. dropWhile (\<lambda>(k', t'). k' \<noteq> k) kvs = (k, t) # later
     \<and> kvs = takeWhile (\<lambda>(k', t'). k' \<noteq> k) kvs @ (k, t) # later"
  by (induction kvs) (auto split: if_splits)

lemma uniform_list_at:
  assumes "rs \<noteq> []" and "\<forall>r\<in>set rs. distinct (map fst r) \<and> set (map fst r) = K" and "k \<in> K"
  shows "subtree t ks = Some (JList (map scalar_dict rs)) \<Longrightarrow>
         foldl (extend_path sep) pk ks = p \<Longrightarrow> p \<noteq> [] \<Longrightarrow>
         untouched sep pk t ks (p @ sep @ k) \<Longrightarrow> distinct (map fst fd) \<Longrightarrow>
         map_of (flatten_inner ls sep t pk fd) (p @ sep @ k)
         = Some (SStr (join '', '' (map (\<lambda>r. py_str (the (map_of r k))) rs)))"
proof (induction ks arbitrary: t pk fd)
  case Nil
  then have t: "t = JList (map scalar_dict rs)" and p: "pk = p" by simp_all
  show ?case
    unfolding t p
    using uniform_list_branch(1) [OF Nil.prems(3) assms(1,2) Nil.prems(5), of ls sep k]
      assms(3) by simp
next
  case (Cons k0 ks)
  from Cons.prems(1) obtain kvs t0 where t: "t = JDict kvs" and t0: "map_of kvs k0 = Some t0"
    and sub: "subtree t0 ks = Some (JList (map scalar_dict rs))"
    by (cases t) (auto split: option.splits)
  from map_of_dropWhile [OF t0] obtain later where
    dw: "dropWhile (\<lambda>(k', t'). k' \<noteq> k0) kvs = (k0, t0) # later"
    and kvs: "kvs = takeWhile (\<lambda>(k', t'). k' \<noteq> k0) kvs @ (k0, t0) # later"
    by blast
  let ?pre = "takeWhile (\<lambda>(k', t'). k' \<noteq> k0) kvs"
  let ?pk = "extend_path sep pk k0"
  let ?fd = "flatten_dict_items ls sep ?pre pk fd"
  from Cons.prems(4) have unt: "untouched sep ?pk t0 ks (p @ sep @ k)"
    and quiet: "\<forall>(k', t')\<in>set later. new_key sep pk k' \<noteq> []
         \<and> p @ sep @ k \<noteq> new_key sep pk k'
         \<and> \<not> startswith (p @ sep @ k) (new_key sep pk k' @ sep)"
    by (simp_all add: t dw new_key_extend_path)
  have path: "foldl (extend_path sep) ?pk ks = p" using Cons.prems(2) by simp
  have d: "distinct (map fst ?fd)" using Cons.prems(5) by (rule flatten_distinct(2))
  have IH: "map_of (flatten_inner ls sep t0 ?pk ?fd) (p @ sep @ k)
            = Some (SStr (join '', '' (map (\<lambda>r. py_str (the (map_of r k))) rs)))"
    using sub path Cons.prems(3) unt d by (rule Cons.IH)
  have "flatten_inner ls sep t pk fd
        = flatten_dict_items ls sep later pk (flatten_inner ls sep t0 ?pk ?fd)"
    unfolding t flatten_inner.simps
    by (subst kvs) (simp add: flatten_dict_items_append new_key_extend_path)
  then show ?case
    using flatten_dict_items_frame [OF quiet] IH by simp
qed

text \<open>
  C1, as amended.  Let a record hold, at the keys \<open>ks\<close> with non-empty joined path \<open>p\<close>, a
  non-empty list of mappings with scalar values that all have the same key set \<open>K\<close> (each
  key once; the elements may list the keys in different orders), beside any siblings and
  under any nesting.  Let no node that is flattened after the list have the path \<open>p-k\<close>, nor a
  path that followed by the separator is the beginning of \<open>p-k\<close>.  Then \<open>flatten\<close> maps
  \<open>p-k\<close>, for each \<open>k\<close> in \<open>K\<close>, to the \<open>", "\<close>-join of \<open>len(list)\<close> strings, the \<open>str\<close> of the
  value of \<open>k\<close> in each element, in element order.
\<close>

theorem flatten_uniform_list:
  assumes "subtree t ks = Some (JList (map scalar_dict rs))"
    and "joined_path sep ks = p" and "p \<noteq> []" and "rs \<noteq> []"
    and "\<forall>r\<in>set rs. distinct (map fst r) \<and> set (map fst r) = K"
    and "k \<in> K"
    and "untouched sep [] t ks (p @ sep @ k)"
  shows "map_of (flatten_data ls sep t) (p @ sep @ k)
         = Some (SStr (join '', '' (map (\<lambda>r. py_str (the (map_of r k))) rs)))"
  unfolding flatten_data_def
  using assms(4,5,6) assms(1) assms(2) [unfolded joined_path_def] assms(3,7)
  by (rule uniform_list_at) simp

text \<open>
  An instance with siblings and nesting, and the scenario of the specification:
  \<open>flatten({"type": [{"id": 1, "name": "A"}, {"id": 2, "name": "B"}]})\<close> is
  \<open>{"type-id": "1, 2", "type-name": "A, B"}\<close>.
\<close>

theorem flatten_uniform_list_witness:
  "map_of (flatten_data (\<lambda>_. []) ''-''
      (JDict [(''id'', Leaf (SInt 7)),
              (''x'', JDict [(''type'', JList [JDict [(''id'', Leaf (SInt 1)), (''name'', Leaf (SStr ''A''))],
                                               JDict [(''name'', Leaf (SStr ''B'')), (''id'', Leaf (SInt 2))]]),
                             (''n'', Leaf SNone)]),
              (''url'', Leaf (SStr ''u''))]))
     ''x-type-name'' = Some (SStr ''A, B'')
   \<and> flatten_data (\<lambda>_. []) ''-''
       (JDict [(''type'', JList [JDict [(''id'', Leaf (SInt 1)), (''name'', Leaf (SStr ''A''))],
                                 JDict [(''id'', Leaf (SInt 2)), (''name'', Leaf (SStr ''B''))]])])
     = [(''type-id'', SStr ''1, 2''), (''type-name'', SStr ''A, B'')]"
proof -
  have "map_of (flatten_data (\<lambda>_. []) ''-''
      (JDict [(''id'', Leaf (SInt 7)),
              (''x'', JDict [(''type'', JList [JDict [(''id'', Leaf (SInt 1)), (''name'', Leaf (SStr ''A''))],
                                               JDict [(''name'', Leaf (SStr ''B'')), (''id'', Leaf (SInt 2))]]),
                             (''n'', Leaf SNone)]),
              (''url'', Leaf (SStr ''u''))]))
     ''x-type-name'' = Some (SStr ''A, B'')"
    using flatten_uniform_list [of
        "JDict [(''id'', Leaf (SInt 7)),
              (''x'', JDict [(''type'', JList [JDict [(''id'', Leaf (SInt 1)), (''name'', Leaf (SStr ''A''))],
                                               JDict [(''name'', Leaf (SStr ''B'')), (''id'', Leaf (SInt 2))]]),
                             (''n'', Leaf SNone)]),
              (''url'', Leaf (SStr ''u''))]"
        "[''x'', ''type'']"
        "[[(''id'', SInt 1), (''name'', SStr ''A'')], [(''name'', SStr ''B''), (''id'', SInt 2)]]"
        "''-''" "''x-type''" "{''id'', ''name''}" "''name''" "\<lambda>_. []"]
    by (simp add: scalar_dict_def joined_path_def extend_path_def startswith_def insert_commute)
  moreover have "flatten_data (\<lambda>_. []) ''-''
       (JDict [(''type'', JList [JDict [(''id'', Leaf (SInt 1)), (''name'', Leaf (SStr ''A''))],
                                 JDict [(''id'', Leaf (SInt 2)), (''name'', Leaf (SStr ''B''))]])])
     = [(''type-id'', SStr ''1, 2''), (''type-name'', SStr ''A, B'')]"
    by (simp add: flatten_unfold)
  ultimately show ?thesis by simp
qed

text \<open>
  C1 as stated fails without these conditions.  Under the empty key, and for a list at the
  root, the elements are flattened under keys that do not start with the separator, so the
  scan finds nothing to aggregate and the values of the last element stay as they are; an
  empty list contributes no key at all; a value that is itself a mapping gives the key
  \<open>p-a-x\<close> and none for \<open>p-a\<close>; and a later sibling with the key \<open>p-a\<close> overwrites the
  joined values.
\<close>

theorem flatten_uniform_list_counterexample:
  "flatten_data (\<lambda>_. []) ''-''
     (JDict [('''', JList [JDict [(''a'', Leaf (SInt 1)), (''b'', Leaf (SInt 2))],
                           JDict [(''a'', Leaf (SInt 3)), (''b'', Leaf (SInt 4))]])])
   = [(''a'', SInt 3), (''b'', SInt 4)]
   \<and> flatten_data (\<lambda>_. []) ''-''
     (JList [JDict [(''a'', Leaf (SInt 1)), (''b'', Leaf (SInt 2))],
             JDict [(''a'', Leaf (SInt 3)), (''b'', Leaf (SInt 4))]])
   = [(''a'', SInt 3), (''b'', SInt 4)]
   \<and> flatten_data (\<lambda>_. []) ''-'' (JDict [(''p'', JList [])]) = []
   \<and> flatten_data (\<lambda>_. []) ''-''
     (JDict [(''p'', JList [JDict [(''a'', JDict [(''x'', Leaf (SInt 1))]), (''b'', Leaf (SInt 2))]])])
   = [(''p-a-x'', SStr ''1''), (''p-b'', SStr ''2'')]
   \<and> flatten_data (\<lambda>_. []) ''-''
     (JDict [(''p'', JList [JDict [(''a'', Leaf (SInt 1)), (''b'', Leaf (SInt 2))]]),
             (''p-a'', Leaf (SInt 9))])
   = [(''p-a'', SInt 9), (''p-b'', SStr ''2'')]"
  by (simp add: flatten_unfold)

section \<open>The flattener on a store agrees with the flattener on trees\<close>

lemma update_map_values:
  "AList.update k (f v) (map (\<lambda>(k, v). (k, f v)) al) = map (\<lambda>(k, v). (k, f v)) (AList.update k v al)"
  by (induction al) auto

lemma dict_items_flat:
  "fa < length h \<Longrightarrow> h ! fa = flat_obj fd \<Longrightarrow>
   dict_items fa h = Some (map (\<lambda>(k, s). (k, HScalar s)) fd)"
  by (simp add: dict_items_def flat_obj_def)

lemma dict_store_flat:
  "fa < length h \<Longrightarrow> h ! fa = flat_obj fd \<Longrightarrow>
   dict_store fa k (HScalar s) h = Some (h[fa := flat_obj (AList.update k s fd)])"
  by (simp add: dict_store_def dict_items_flat) (simp add: flat_obj_def update_map_values)

lemma stands_for_frame:
  "\<forall>a<n. h' ! a = h ! a \<Longrightarrow> stands_for n h' v t = stands_for n h v t"
  "\<forall>a<n. h' ! a = h ! a \<Longrightarrow> stand_for n h' vs ts = stand_for n h vs ts"
  "\<forall>a<n. h' ! a = h ! a \<Longrightarrow> items_stand_for n h' kvs kts = items_stand_for n h kvs kts"
  by (induction n h v t and n h vs ts and n h kvs kts rule: stands_for_stand_for_items_stand_for.induct)
    (auto split: hval.splits hobj.splits list.splits)

lemma tree_of_stands_for:
  "stands_for n h v t \<Longrightarrow> n \<le> length h \<Longrightarrow> depth t < d \<Longrightarrow> tree_of d h v = Some t"
  "stand_for n h vs ts \<Longrightarrow> n \<le> length h \<Longrightarrow> depth_list ts < d \<Longrightarrow> trees_of d h vs = Some ts"
  "items_stand_for n h kvs kts \<Longrightarrow> n \<le> length h \<Longrightarrow> depth_items kts < d
     \<Longrightarrow> tree_items_of d h kvs = Some kts"
proof (induction n h v t and n h vs ts and n h kvs kts arbitrary: d and d and d
    rule: stands_for_stand_for_items_stand_for.induct)
  case (1 n h v s)
  then show ?case by (cases d) auto
next
  case (2 n h v ts)
  then show ?case by (cases d) (auto split: hval.splits hobj.splits)
next
  case (3 n h v kts)
  then show ?case by (cases d) (auto split: hval.splits hobj.splits)
next
  case (4 n h vs)
  then show ?case by simp
next
  case (5 n h vs t ts)
  then show ?case by (auto split: list.splits)
next
  case (6 n h kvs)
  then show ?case by simp
next
  case (7 n h kvs k t kts)
  then show ?case by (auto split: list.splits)
qed

lemma hscan_flat:
  "fl < length h \<Longrightarrow> h ! fl = flat_obj acc \<Longrightarrow>
   hscan root fl (map (\<lambda>(k, s). (k, HScalar s)) fd) h
   = Some (h[fl := flat_obj (fold (\<lambda>(k, v) acc. if startswith k root
                                     then AList.update (drop (length root) k) v acc else acc) fd acc)])"
proof (induction fd arbitrary: h acc)
  case Nil
  then have "h[fl := flat_obj acc] = h" by (simp add: list_update_same_conv)
  then show ?case by simp
next
  case (Cons x fd)
  obtain k s where x: "x = (k, s)" by (cases x)
  show ?case
  proof (cases "startswith k root")
    case True
    let ?acc = "AList.update (drop (length root) k) s acc"
    have "hscan root fl (map (\<lambda>(k, s). (k, HScalar s)) fd) (h[fl := flat_obj ?acc])
          = Some ((h[fl := flat_obj ?acc])[fl := flat_obj (fold (\<lambda>(k, v) acc. if startswith k root
                    then AList.update (drop (length root) k) v acc else acc) fd ?acc)])"
      using Cons.prems by (intro Cons.IH) simp_all
    then show ?thesis
      using True Cons.prems by (simp add: x dict_store_flat)
  next
    case False
    then show ?thesis
      using Cons by (simp add: x)
  qed
qed

lemma snd_imageI: "(k, v) \<in> set kvs \<Longrightarrow> v \<in> snd ` set kvs"
  by force

lemma items_rel_keys: "items_rel la m h kvs li \<Longrightarrow> map fst kvs = map fst li"
  by (induction la m h kvs li rule: items_rel.induct) auto

lemma items_rel_bound:
  "items_rel la m h kvs li \<Longrightarrow> HRef b \<in> snd ` set kvs \<Longrightarrow> la < b \<and> b < m"
  by (induction la m h kvs li rule: items_rel.induct) auto

lemma items_rel_None:
  assumes "items_rel la m h kvs li"
  shows "map_of kvs k = None \<longleftrightarrow> map_of li k = None"
proof -
  have "fst ` set kvs = fst ` set li"
    using items_rel_keys [OF assms] by (metis set_map)
  then show ?thesis by (simp add: map_of_eq_None_iff)
qed

lemma items_rel_frame:
  "items_rel la m h kvs li \<Longrightarrow> \<forall>a. la < a \<and> a < m \<longrightarrow> h' ! a = h ! a \<Longrightarrow> m \<le> m'
   \<Longrightarrow> items_rel la m' h' kvs li"
  by (induction la m h kvs li rule: items_rel.induct) auto

lemma items_rel_update_other:
  "items_rel la m h kvs li \<Longrightarrow> HRef b \<notin> snd ` set kvs \<Longrightarrow> items_rel la m (h[b := obj]) kvs li"
  by (induction la m h kvs li rule: items_rel.induct) auto

lemma items_rel_snoc:
  "items_rel la m h kvs li \<Longrightarrow> la < b \<Longrightarrow> b < m \<Longrightarrow> h ! b = HList [] \<Longrightarrow>
   HRef b \<notin> snd ` set kvs \<Longrightarrow> items_rel la m h (kvs @ [(k, HRef b)]) (li @ [(k, [])])"
  by (induction la m h kvs li rule: items_rel.induct) auto

lemma items_rel_append_value:
  "items_rel la m h kvs li \<Longrightarrow> m \<le> length h \<Longrightarrow> map_of kvs k = Some v \<Longrightarrow>
   \<exists>b xs. v = HRef b \<and> la < b \<and> b < m \<and> h ! b = HList (map HScalar xs)
     \<and> items_rel la m (h[b := HList (map HScalar xs @ [HScalar s])]) kvs
         (AList.map_entry k (\<lambda>vs. vs @ [s]) li)"
proof (induction la m h kvs li rule: items_rel.induct)
  case (2 la m h k' b' kvs k'' xs' li)
  then have k'': "k'' = k'" and b': "la < b'" "b' < m" "h ! b' = HList (map HScalar xs')"
      "HRef b' \<notin> snd ` set kvs"
    and rest: "items_rel la m h kvs li"
    by simp_all
  show ?case
  proof (cases "k' = k")
    case True
    with "2.prems"(3) have v: "v = HRef b'" by simp
    have "items_rel la m (h[b' := HList (map HScalar xs' @ [HScalar s])]) kvs li"
      using rest b'(4) by (rule items_rel_update_other)
    then show ?thesis
      using True b' "2.prems"(2) by (auto simp: k'' v)
  next
    case False
    with "2.prems"(3) have look: "map_of kvs k = Some v" by simp
    from "2.IH" [OF rest "2.prems"(2) look] obtain b xs where
      IH: "v = HRef b" "la < b" "b < m" "h ! b = HList (map HScalar xs)"
        "items_rel la m (h[b := HList (map HScalar xs @ [HScalar s])]) kvs
           (AList.map_entry k (\<lambda>vs. vs @ [s]) li)"
      by blast
    from look have "(k, v) \<in> set kvs" by (rule map_of_SomeD)
    then have "HRef b \<in> snd ` set kvs" using IH(1) by (auto dest: snd_imageI)
    with b'(4) have "b \<noteq> b'" by auto
    then show ?thesis
      using False IH b' by (auto simp: k'')
  qed
qed simp_all

lemma hlist_items_append_ok:
  assumes "items_at la m h li"
  shows "\<exists>h'. hlist_items_append la k (HScalar s) h = Some h'
           \<and> items_at la (length h') h' (list_items_append k s li)
           \<and> length h \<le> length h' \<and> (\<forall>a<la. h' ! a = h ! a)"
proof -
  from assms obtain kvs where la: "la < length h" and m: "m \<le> length h"
    and kvs: "h ! la = HDict kvs" and rel: "items_rel la m h kvs li"
    by (auto simp: items_at_def)
  define h1 where "h1 = (if map_of li k = None
      then (h @ [HList []])[la := HDict (kvs @ [(k, HRef (length h))])] else h)"
  define kvs1 where "kvs1 = (if map_of li k = None then kvs @ [(k, HRef (length h))] else kvs)"
  define li1 where "li1 = (if map_of li k = None then AList.update k [] li else li)"
  have none: "map_of kvs k = None \<longleftrightarrow> map_of li k = None"
    using rel by (rule items_rel_None)
  have step1: "(if map_of kvs k = None
                 then (case alloc (HList []) h of (b, h') \<Rightarrow> dict_store la k (HRef b) h')
                 else Some h) = Some h1"
  proof (cases "map_of li k = None")
    case True
    then have "k \<notin> fst ` set kvs" using none by (simp add: map_of_eq_None_iff)
    then have "AList.update k (HRef (length h)) kvs = kvs @ [(k, HRef (length h))]"
      by (rule update_fresh)
    with True none la kvs show ?thesis
      by (simp add: alloc_def dict_store_def dict_items_def h1_def nth_append)
  next
    case False
    then show ?thesis using none by (auto simp: h1_def)
  qed
  have len1: "length h \<le> length h1" and la1: "la < length h1" and kvs1: "h1 ! la = HDict kvs1"
    and old1: "\<forall>a<length h. a \<noteq> la \<longrightarrow> h1 ! a = h ! a"
    using la kvs by (auto simp: h1_def kvs1_def nth_append)
  have rel1: "items_rel la (length h1) h1 kvs1 li1"
  proof (cases "map_of li k = None")
    case True
    have fresh: "HRef (length h) \<notin> snd ` set kvs"
      using items_rel_bound [OF rel] m by fastforce
    have "items_rel la (length h1) h1 kvs li"
      using rel old1 m len1 by (intro items_rel_frame [OF rel]) auto
    moreover have "h1 ! length h = HList []" "length h < length h1"
      using True la by (auto simp: h1_def nth_append)
    ultimately have "items_rel la (length h1) h1 (kvs @ [(k, HRef (length h))]) (li @ [(k, [])])"
      using la fresh by (intro items_rel_snoc) auto
    moreover from True have "AList.update k [] li = li @ [(k, [])]"
      by (intro update_fresh) (simp add: map_of_eq_None_iff)
    ultimately show ?thesis using True by (simp add: kvs1_def li1_def)
  next
    case False
    then have same: "h1 = h" "kvs1 = kvs" "li1 = li"
      by (auto simp: h1_def kvs1_def li1_def)
    have "items_rel la (length h) h kvs li"
      using rel _ m by (rule items_rel_frame) simp
    then show ?thesis by (simp add: same)
  qed
  have "map_of li1 k \<noteq> None"
    by (auto simp: li1_def update_conv')
  then have "map_of kvs1 k \<noteq> None"
    using items_rel_None [OF rel1] by simp
  then obtain v where v: "map_of kvs1 k = Some v" by auto
  from items_rel_append_value [OF rel1 order_refl v, of s] obtain b xs where
    b: "v = HRef b" "la < b" "b < length h1" "h1 ! b = HList (map HScalar xs)"
      "items_rel la (length h1) (h1[b := HList (map HScalar xs @ [HScalar s])]) kvs1
         (AList.map_entry k (\<lambda>vs. vs @ [s]) li1)"
    by blast
  let ?h2 = "h1[b := HList (map HScalar xs @ [HScalar s])]"
  have "hlist_items_append la k (HScalar s) h = Some ?h2"
    unfolding hlist_items_append_def
    using la kvs step1 la1 kvs1 v b
    by (simp add: dict_items_def list_append_def list_elems_def)
  moreover have "items_at la (length ?h2) ?h2 (list_items_append k s li)"
    using b la1 kvs1 by (auto simp: items_at_def list_items_append_def li1_def)
  moreover have "length h \<le> length ?h2" using len1 by simp
  moreover have "\<forall>a<la. ?h2 ! a = h ! a"
    using old1 la b(2) by auto
  ultimately show ?thesis by blast
qed

lemma hcollect_ok:
  "items_at la m h li \<Longrightarrow>
   \<exists>h'. hcollect la (map (\<lambda>(k, s). (k, HScalar s)) r) h = Some h'
     \<and> items_at la (length h') h' (collect_items r li)
     \<and> length h \<le> length h' \<and> (\<forall>a<la. h' ! a = h ! a)"
proof (induction r arbitrary: h li m)
  case Nil
  then have "items_at la (length h) h li"
    by (auto simp: items_at_def intro: items_rel_frame)
  then show ?case by (simp add: collect_items_def)
next
  case (Cons x r)
  obtain k s where x: "x = (k, s)" by (cases x)
  from hlist_items_append_ok [OF Cons.prems, of k s] obtain h1 where
    h1: "hlist_items_append la k (HScalar s) h = Some h1"
      "items_at la (length h1) h1 (list_items_append k s li)"
      "length h \<le> length h1" "\<forall>a<la. h1 ! a = h ! a"
    by blast
  from Cons.IH [OF h1(2)] obtain h' where
    h': "hcollect la (map (\<lambda>(k, s). (k, HScalar s)) r) h1 = Some h'"
      "items_at la (length h') h' (collect_items r (list_items_append k s li))"
      "length h1 \<le> length h'" "\<forall>a<la. h' ! a = h1 ! a"
    by blast
  show ?case
    using h1 h' by (auto simp: x collect_items_def)
qed

lemma scalars_of_map: "scalars_of (map HScalar xs) = Some xs"
  by (induction xs) auto

lemma items_rel_Cons:
  "items_rel la m h (kv # kvs) li \<Longrightarrow>
   \<exists>k b xs li'. kv = (k, HRef b) \<and> li = (k, xs) # li' \<and> la < b \<and> b < m
     \<and> h ! b = HList (map HScalar xs) \<and> HRef b \<notin> snd ` set kvs \<and> items_rel la m h kvs li'"
  by (erule items_rel.elims) auto

lemma hemit_ok:
  "items_rel la m h kvs li \<Longrightarrow> fa < la \<Longrightarrow> m \<le> length h \<Longrightarrow> h ! fa = flat_obj fd \<Longrightarrow>
   hemit sep pk fa kvs h = Some (h[fa := flat_obj (emit_items sep pk li fd)])"
proof (induction kvs arbitrary: li h fd)
  case Nil
  then have li: "li = []" by (cases li) auto
  from Nil have "h[fa := flat_obj fd] = h"
    by (cases "fa < length h") (simp_all add: list_update_same_conv list_update_beyond)
  then show ?case by (simp add: emit_items_def li)
next
  case (Cons kv kvs)
  from items_rel_Cons [OF Cons.prems(1)] obtain k b xs li' where
    kv: "kv = (k, HRef b)" and li: "li = (k, xs) # li'"
    and b: "la < b" "b < m" "h ! b = HList (map HScalar xs)"
    and rest: "items_rel la m h kvs li'"
    by blast
  let ?fd = "AList.update (pk @ sep @ k) (SStr (join '', '' (map py_str xs))) fd"
  let ?h1 = "h[fa := flat_obj ?fd]"
  from Cons.prems b have fa: "fa < length h" by simp
  have store: "dict_store fa (pk @ sep @ k) (HScalar (SStr (join '', '' (map py_str xs)))) h
               = Some ?h1"
    using fa Cons.prems(4) by (rule dict_store_flat)
  have rel1: "items_rel la m ?h1 kvs li'"
    using rest _ order_refl by (rule items_rel_frame) (use Cons.prems(2) in auto)
  have "hemit sep pk fa kvs ?h1 = Some (?h1[fa := flat_obj (emit_items sep pk li' ?fd)])"
    using rel1 Cons.prems(2) by (rule Cons.IH) (use Cons.prems(3) fa in simp_all)
  then show ?case
    using b Cons.prems(3) store
    by (simp add: kv li list_elems_def scalars_of_map emit_items_def)
qed

lemma items_at_frame:
  assumes "items_at la m h li" and "length h \<le> length h'" and "h' ! la = h ! la"
    and "\<forall>a. la < a \<and> a < m \<longrightarrow> h' ! a = h ! a"
  shows "items_at la m h' li"
proof -
  from assms(1) obtain kvs where la: "la < length h" and m: "m \<le> length h"
    and kvs: "h ! la = HDict kvs" and rel: "items_rel la m h kvs li"
    by (auto simp: items_at_def)
  have "items_rel la m h' kvs li"
    using rel assms(4) order_refl by (rule items_rel_frame)
  then show ?thesis
    using la m kvs assms(2,3) by (auto simp: items_at_def)
qed

lemma hcollect_element_ok:
  assumes "fa < la" and "la < fl" and "fl < length h"
    and "h ! fa = flat_obj fd" and "h ! fl = HDict []" and "items_at la fl h li"
  shows "\<exists>h'. hcollect_element sep pk fa la fl h = Some h'
           \<and> items_at la (length h') h' (collect_items (scan_flat_dict (pk @ sep) fd) li)
           \<and> length h \<le> length h' \<and> (\<forall>a<la. h' ! a = h ! a)"
proof -
  let ?fl = "scan_flat_dict (pk @ sep) fd"
  let ?h3 = "h[fl := flat_obj ?fl]"
  from assms have fa: "fa < length h" by simp
  have items: "dict_items fa h = Some (map (\<lambda>(k, s). (k, HScalar s)) fd)"
    using fa assms(4) by (rule dict_items_flat)
  have "h ! fl = flat_obj []" using assms(5) by (simp add: flat_obj_def)
  with assms(3) have scan: "hscan (pk @ sep) fl (map (\<lambda>(k, s). (k, HScalar s)) fd) h = Some ?h3"
    unfolding scan_flat_dict_def by (rule hscan_flat)
  have items3: "dict_items fl ?h3 = Some (map (\<lambda>(k, s). (k, HScalar s)) ?fl)"
    using assms(3) by (intro dict_items_flat) simp_all
  have "items_at la fl ?h3 li"
    using assms(6) by (rule items_at_frame) (use assms(2) in auto)
  from hcollect_ok [OF this, of ?fl] obtain h' where
    h': "hcollect la (map (\<lambda>(k, s). (k, HScalar s)) ?fl) ?h3 = Some h'"
      "items_at la (length h') h' (collect_items ?fl li)"
      "length ?h3 \<le> length h'" "\<forall>a<la. h' ! a = ?h3 ! a"
    by blast
  have "hcollect_element sep pk fa la fl h = Some h'"
    by (simp add: hcollect_element_def items scan items3 h'(1))
  moreover have "\<forall>a<la. h' ! a = h ! a"
    using h'(4) assms(2) by auto
  ultimately show ?thesis
    using h'(2,3) by auto
qed

lemma is_dict_stands_for:
  "stands_for n h v t \<Longrightarrow> n \<le> length h \<Longrightarrow> is_dict h v = (case t of JDict kts \<Rightarrow> True | _ \<Rightarrow> False)"
  by (cases t) (auto simp: is_dict_def dict_items_def split: hval.splits hobj.splits)

lemma hstr_stands_for:
  "stands_for n h v (Leaf s) \<Longrightarrow> hstr d ls h v = Some (py_str s)"
  "stands_for n h v (JList ws) \<Longrightarrow> n \<le> length h \<Longrightarrow> depth (JList ws) < d
     \<Longrightarrow> hstr d ls h v = Some (ls ws)"
proof -
  show "stands_for n h v (Leaf s) \<Longrightarrow> hstr d ls h v = Some (py_str s)"
    by (simp add: hstr_def)
  assume a: "stands_for n h v (JList ws)" "n \<le> length h" "depth (JList ws) < d"
  then have "tree_of d h v = Some (JList ws)" by (rule tree_of_stands_for(1))
  moreover from a(1) obtain a where "v = HRef a" by (cases v) auto
  ultimately show "hstr d ls h v = Some (ls ws)" by (simp add: hstr_def)
qed

lemma hcollect_scalar_ok:
  assumes "hstr d ls h v = Some s" and "items_at la m h li"
  shows "\<exists>h'. hcollect_scalar d ls la pk h v = Some h'
           \<and> items_at la (length h') h' (list_items_append pk (SStr s) li)
           \<and> length h \<le> length h' \<and> (\<forall>a<la. h' ! a = h ! a)"
  using hlist_items_append_ok [OF assms(2), of pk "SStr s"]
  by (simp add: hcollect_scalar_def assms(1))

lemma hflatten_refines:
  "stands_for n h v t \<Longrightarrow> n \<le> fa \<Longrightarrow> fa < length h \<Longrightarrow> h ! fa = flat_obj fd \<Longrightarrow> depth t < d \<Longrightarrow>
   \<exists>h'. hflatten_inner d ls sep fa h v pk = Some h' \<and> length h \<le> length h'
      \<and> (\<forall>a<length h. a \<noteq> fa \<longrightarrow> h' ! a = h ! a)
      \<and> h' ! fa = flat_obj (flatten_inner ls sep t pk fd)"
  "items_stand_for n h hkvs kts \<Longrightarrow> n \<le> fa \<Longrightarrow> fa < length h \<Longrightarrow> h ! fa = flat_obj fd
   \<Longrightarrow> depth_items kts < d \<Longrightarrow>
   \<exists>h'. hflatten_dict_items d ls sep fa h hkvs pk = Some h' \<and> length h \<le> length h'
      \<and> (\<forall>a<length h. a \<noteq> fa \<longrightarrow> h' ! a = h ! a)
      \<and> h' ! fa = flat_obj (flatten_dict_items ls sep kts pk fd)"
  "stand_for n h hvs ts \<Longrightarrow> n \<le> fa \<Longrightarrow> fa < la \<Longrightarrow> items_at la (length h) h li
   \<Longrightarrow> h ! fa = flat_obj fd \<Longrightarrow> depth_list ts < d \<Longrightarrow>
   \<exists>h'. hflatten_list_values d ls sep fa la h hvs pk = Some h' \<and> length h \<le> length h'
      \<and> (\<forall>a<la. a \<noteq> fa \<longrightarrow> h' ! a = h ! a)
      \<and> items_at la (length h') h' (fst (flatten_list_values ls sep ts pk li fd))
      \<and> h' ! fa = flat_obj (snd (flatten_list_values ls sep ts pk li fd))"
proof (induction ls sep t pk fd and ls sep kts pk fd and ls sep ts pk li fd
    arbitrary: d n h v fa and d n h hkvs fa and d n h hvs fa la
    rule: flatten_inner_flatten_dict_items_flatten_list_values.induct)
  case (1 ls sep kvs pk fd)
  from "1.prems"(1) obtain a hkvs where v: "v = HRef a" and a: "a < n" "h ! a = HDict hkvs"
    and rel: "items_stand_for n h hkvs kvs"
    by (auto split: hval.splits hobj.splits)
  from "1.prems"(5) obtain d' where d: "d = Suc d'" and d': "depth_items kvs < d'"
    by (cases d) auto
  have call: "hflatten_inner d ls sep fa h v pk = hflatten_dict_items d' ls sep fa h hkvs pk"
    using a "1.prems"(2,3) by (simp add: v d is_dict_def dict_items_def)
  show ?case
    unfolding call flatten_inner.simps
    using rel "1.prems"(2,3,4) d' by (rule "1.IH")
next
  case (2 ls sep vs pk fd)
  from "2.prems"(1) obtain a hvs where v: "v = HRef a" and a: "a < n" "h ! a = HList hvs"
    and rel: "stand_for n h hvs vs"
    by (auto split: hval.splits hobj.splits)
  from "2.prems"(5) obtain d' where d: "d = Suc d'" and d': "depth_list vs < d'"
    by (cases d) auto
  let ?la = "length h"
  let ?h1 = "h @ [HDict []]"
  let ?r = "flatten_list_values ls sep vs pk [] fd"
  have call: "hflatten_inner d ls sep fa h v pk
      = Option.bind (hflatten_list_values d' ls sep fa ?la ?h1 hvs pk) (hemit_items sep pk fa ?la)"
    using a "2.prems"(2,3)
    by (simp add: v d is_dict_def dict_items_def list_elems_def alloc_def)
  have rel1: "stand_for n ?h1 hvs vs"
    using rel "2.prems"(2,3) by (subst stands_for_frame(2) [of n ?h1 h]) (auto simp: nth_append)
  have items1: "items_at ?la (length ?h1) ?h1 []"
    by (simp add: items_at_def)
  have fd1: "?h1 ! fa = flat_obj fd"
    using "2.prems"(3,4) by (simp add: nth_append)
  from "2.IH" [OF rel1 "2.prems"(2) "2.prems"(3) items1 fd1 d'] obtain h2 where
    h2: "hflatten_list_values d' ls sep fa ?la ?h1 hvs pk = Some h2" "length ?h1 \<le> length h2"
      "\<forall>a<?la. a \<noteq> fa \<longrightarrow> h2 ! a = ?h1 ! a"
      "items_at ?la (length h2) h2 (fst ?r)" "h2 ! fa = flat_obj (snd ?r)"
    by blast
  from h2(4) obtain kvs2 where kvs2: "h2 ! ?la = HDict kvs2"
    and rel2: "items_rel ?la (length h2) h2 kvs2 (fst ?r)"
    by (auto simp: items_at_def)
  have emit: "hemit sep pk fa kvs2 h2 = Some (h2[fa := flat_obj (emit_items sep pk (fst ?r) (snd ?r))])"
    using rel2 "2.prems"(3) order_refl h2(5) by (rule hemit_ok)
  let ?h3 = "h2[fa := flat_obj (emit_items sep pk (fst ?r) (snd ?r))]"
  have "hflatten_inner d ls sep fa h v pk = Some ?h3"
    using h2(2) by (simp add: call h2(1) hemit_items_def dict_items_def kvs2 emit)
  moreover have "length h \<le> length ?h3" using h2(2) by simp
  moreover have "\<forall>a<length h. a \<noteq> fa \<longrightarrow> ?h3 ! a = h ! a"
    using h2(3) by (auto simp: nth_append)
  moreover have "?h3 ! fa = flat_obj (flatten_inner ls sep (JList vs) pk fd)"
    using h2(2) "2.prems"(3) by (simp add: case_prod_beta)
  ultimately show ?case by blast
next
  case (3 ls sep s pk fd)
  from "3.prems"(1) have v: "v = HScalar s" by simp
  from "3.prems"(5) obtain d' where d: "d = Suc d'" by (cases d) auto
  show ?case
    using "3.prems"(3,4) by (simp add: v d dict_store_flat)
next
  case (4 ls sep pk fd)
  then show ?case by simp
next
  case (5 ls sep key "value" kvs pk fd)
  from "5.prems"(1) obtain hv hkvs' where hkvs: "hkvs = (key, hv) # hkvs'"
    and hv: "stands_for n h hv value" and rest: "items_stand_for n h hkvs' kvs"
    by (auto split: list.splits)
  from "5.prems"(5) have dv: "depth value < d" and dk: "depth_items kvs < d" by simp_all
  let ?fd1 = "flatten_inner ls sep value (new_key sep pk key) fd"
  from "5.IH"(1) [OF hv "5.prems"(2,3,4) dv] obtain h1 where
    h1: "hflatten_inner d ls sep fa h hv (new_key sep pk key) = Some h1" "length h \<le> length h1"
      "\<forall>a<length h. a \<noteq> fa \<longrightarrow> h1 ! a = h ! a" "h1 ! fa = flat_obj ?fd1"
    by blast
  have rest1: "items_stand_for n h1 hkvs' kvs"
    using rest h1(3) "5.prems"(2,3) by (subst stands_for_frame(3) [of n h1 h]) auto
  have fa1: "fa < length h1" using "5.prems"(3) h1(2) by simp
  from "5.IH"(2) [OF rest1 "5.prems"(2) fa1 h1(4) dk] obtain h2 where
    h2: "hflatten_dict_items d ls sep fa h1 hkvs' pk = Some h2" "length h1 \<le> length h2"
      "\<forall>a<length h1. a \<noteq> fa \<longrightarrow> h2 ! a = h1 ! a"
      "h2 ! fa = flat_obj (flatten_dict_items ls sep kvs pk ?fd1)"
    by blast
  have "\<forall>a<length h. a \<noteq> fa \<longrightarrow> h2 ! a = h ! a"
    using h1(2,3) h2(3) by auto
  then show ?case
    using h1 h2 by (auto simp: hkvs)
next
  case (6 ls sep pk li fd)
  then show ?case by simp
next
  case (7 ls sep kvs vs pk li fd)
  from "7.prems"(1) obtain hv hvs' where hvs: "hvs = hv # hvs'"
    and hv: "stands_for n h hv (JDict kvs)" and rest: "stand_for n h hvs' vs"
    by (auto split: list.splits)
  from "7.prems"(6) have dv: "depth (JDict kvs) < d" and dl: "depth_list vs < d" by simp_all
  from "7.prems"(4) have la: "la < length h" by (simp add: items_at_def)
  with "7.prems"(2,3) have n: "n \<le> length h" and fa: "fa < length h" by simp_all
  let ?fl = "length h"
  let ?h1 = "h @ [HDict []]"
  let ?fd1 = "flatten_inner ls sep (JDict kvs) pk fd"
  let ?li1 = "collect_items (scan_flat_dict (pk @ sep) ?fd1) li"
  have isd: "is_dict h hv" using is_dict_stands_for [OF hv n] by simp
  have hv1: "stands_for n ?h1 hv (JDict kvs)"
    using hv n by (subst stands_for_frame(1) [of n ?h1 h]) (auto simp: nth_append)
  have fd1: "?h1 ! fa = flat_obj fd" using fa "7.prems"(5) by (simp add: nth_append)
  have fa1: "fa < length ?h1" using fa by simp
  from "7.IH"(1) [OF hv1 "7.prems"(2) fa1 fd1 dv] obtain h2 where
    h2: "hflatten_inner d ls sep fa ?h1 hv pk = Some h2" "length ?h1 \<le> length h2"
      "\<forall>a<length ?h1. a \<noteq> fa \<longrightarrow> h2 ! a = ?h1 ! a" "h2 ! fa = flat_obj ?fd1"
    by blast
  have old2: "\<forall>a<length h. a \<noteq> fa \<longrightarrow> h2 ! a = h ! a"
    using h2(3) by (auto simp: nth_append)
  have fl2: "h2 ! ?fl = HDict []"
    using h2(3) la "7.prems"(3) by (auto simp: nth_append)
  have items2: "items_at la ?fl h2 li"
    using "7.prems"(4) by (rule items_at_frame) (use h2(2) old2 la "7.prems"(3) in auto)
  have "?fl < length h2" using h2(2) by simp
  from hcollect_element_ok [OF "7.prems"(3) la this h2(4) fl2 items2, of sep pk] obtain h4 where
    h4: "hcollect_element sep pk fa la ?fl h2 = Some h4" "items_at la (length h4) h4 ?li1"
      "length h2 \<le> length h4" "\<forall>a<la. h4 ! a = h2 ! a"
    by blast
  have rest4: "stand_for n h4 hvs' vs"
    using rest h4(4) old2 la "7.prems"(2,3)
    by (subst stands_for_frame(2) [of n h4 h]) auto
  have fd4: "h4 ! fa = flat_obj ?fd1" using h4(4) h2(4) "7.prems"(3) by simp
  from "7.IH"(2) [OF refl refl rest4 "7.prems"(2,3) h4(2) fd4 dl] obtain h5 where
    h5: "hflatten_list_values d ls sep fa la h4 hvs' pk = Some h5" "length h4 \<le> length h5"
      "\<forall>a<la. a \<noteq> fa \<longrightarrow> h5 ! a = h4 ! a"
      "items_at la (length h5) h5 (fst (flatten_list_values ls sep vs pk ?li1 ?fd1))"
      "h5 ! fa = flat_obj (snd (flatten_list_values ls sep vs pk ?li1 ?fd1))"
    by blast
  have "hflatten_list_values d ls sep fa la h hvs pk = Some h5"
    using isd by (simp add: hvs alloc_def h2(1) h4(1) h5(1))
  moreover have "length h \<le> length h5" using h2(2) h4(3) h5(2) by simp
  moreover have "\<forall>a<la. a \<noteq> fa \<longrightarrow> h5 ! a = h ! a"
    using h5(3) h4(4) old2 la by auto
  ultimately show ?case
    using h5(4,5) by (simp add: Let_def)
next
  case (8 ls sep ws vs pk li fd)
  from "8.prems"(1) obtain hv hvs' where hvs: "hvs = hv # hvs'"
    and hv: "stands_for n h hv (JList ws)" and rest: "stand_for n h hvs' vs"
    by (auto split: list.splits)
  from "8.prems"(6) have dv: "depth (JList ws) < d" and dl: "depth_list vs < d" by simp_all
  from "8.prems"(4) have la: "la < length h" by (simp add: items_at_def)
  with "8.prems"(2,3) have n: "n \<le> length h" by simp
  let ?li1 = "list_items_append pk (SStr (ls ws)) li"
  have isd: "\<not> is_dict h hv" using is_dict_stands_for [OF hv n] by simp
  have str: "hstr d ls h hv = Some (ls ws)" using hv n dv by (rule hstr_stands_for(2))
  from hcollect_scalar_ok [OF str "8.prems"(4), of pk] obtain h1 where
    h1: "hcollect_scalar d ls la pk h hv = Some h1" "items_at la (length h1) h1 ?li1"
      "length h \<le> length h1" "\<forall>a<la. h1 ! a = h ! a"
    by blast
  have rest1: "stand_for n h1 hvs' vs"
    using rest h1(4) "8.prems"(2,3) by (subst stands_for_frame(2) [of n h1 h]) auto
  have fd1: "h1 ! fa = flat_obj fd" using h1(4) "8.prems"(3,5) by simp
  from "8.IH" [OF rest1 "8.prems"(2,3) h1(2) fd1 dl] obtain h2 where
    h2: "hflatten_list_values d ls sep fa la h1 hvs' pk = Some h2" "length h1 \<le> length h2"
      "\<forall>a<la. a \<noteq> fa \<longrightarrow> h2 ! a = h1 ! a"
      "items_at la (length h2) h2 (fst (flatten_list_values ls sep vs pk ?li1 fd))"
      "h2 ! fa = flat_obj (snd (flatten_list_values ls sep vs pk ?li1 fd))"
    by blast
  have "hflatten_list_values d ls sep fa la h hvs pk = Some h2"
    using isd by (simp add: hvs h1(1) h2(1))
  moreover have "length h \<le> length h2" using h1(3) h2(2) by simp
  moreover have "\<forall>a<la. a \<noteq> fa \<longrightarrow> h2 ! a = h ! a"
    using h2(3) h1(4) by auto
  ultimately show ?case
    using h2(4,5) by simp
next
  case (9 ls sep s vs pk li fd)
  from "9.prems"(1) obtain hv hvs' where hvs: "hvs = hv # hvs'"
    and hv: "stands_for n h hv (Leaf s)" and rest: "stand_for n h hvs' vs"
    by (auto split: list.splits)
  from "9.prems"(6) have dl: "depth_list vs < d" by simp
  from "9.prems"(4) have la: "la < length h" by (simp add: items_at_def)
  with "9.prems"(2,3) have n: "n \<le> length h" by simp
  let ?li1 = "list_items_append pk (SStr (py_str s)) li"
  have isd: "\<not> is_dict h hv" using is_dict_stands_for [OF hv n] by simp
  have str: "hstr d ls h hv = Some (py_str s)" using hv by (rule hstr_stands_for(1))
  from hcollect_scalar_ok [OF str "9.prems"(4), of pk] obtain h1 where
    h1: "hcollect_scalar d ls la pk h hv = Some h1" "items_at la (length h1) h1 ?li1"
      "length h \<le> length h1" "\<forall>a<la. h1 ! a = h ! a"
    by blast
  have rest1: "stand_for n h1 hvs' vs"
    using rest h1(4) "9.prems"(2,3) by (subst stands_for_frame(2) [of n h1 h]) auto
  have fd1: "h1 ! fa = flat_obj fd" using h1(4) "9.prems"(3,5) by simp
  from "9.IH" [OF rest1 "9.prems"(2,3) h1(2) fd1 dl] obtain h2 where
    h2: "hflatten_list_values d ls sep fa la h1 hvs' pk = Some h2" "length h1 \<le> length h2"
      "\<forall>a<la. a \<noteq> fa \<longrightarrow> h2 ! a = h1 ! a"
      "items_at la (length h2) h2 (fst (flatten_list_values ls sep vs pk ?li1 fd))"
      "h2 ! fa = flat_obj (snd (flatten_list_values ls sep vs pk ?li1 fd))"
    by blast
  have "hflatten_list_values d ls sep fa la h hvs pk = Some h2"
    using isd by (simp add: hvs h1(1) h2(1))
  moreover have "length h \<le> length h2" using h1(3) h2(2) by simp
  moreover have "\<forall>a<la. a \<noteq> fa \<longrightarrow> h2 ! a = h ! a"
    using h2(3) h1(4) by auto
  ultimately show ?case
    using h2(4,5) by simp
qed

lemma stands_for_mono:
  "stands_for n h v t \<Longrightarrow> n \<le> n' \<Longrightarrow> stands_for n' h v t"
  "stand_for n h vs ts \<Longrightarrow> n \<le> n' \<Longrightarrow> stand_for n' h vs ts"
  "items_stand_for n h kvs kts \<Longrightarrow> n \<le> n' \<Longrightarrow> items_stand_for n' h kvs kts"
proof (induction n h v t and n h vs ts and n h kvs kts
    rule: stands_for_stand_for_items_stand_for.induct)
  case (1 n h v s)
  then show ?case by simp
next
  case (2 n h v ts)
  then show ?case by (cases v) (auto split: hobj.splits)
next
  case (3 n h v kts)
  then show ?case by (cases v) (auto split: hobj.splits)
next
  case (4 n h vs)
  then show ?case by simp
next
  case (5 n h vs t ts)
  then show ?case by (cases vs) auto
next
  case (6 n h kvs)
  then show ?case by simp
next
  case (7 n h kvs k t kts)
  then show ?case by (cases kvs) auto
qed

text \<open>
  Started on a value that stands for the tree \<open>t\<close>, with more nested calls allowed than \<open>t\<close>
  is deep, \<open>_flatten_data\<close> returns; it returns the address of a new object, which holds
  the flat dictionary of \<open>t\<close>, and leaves every object that was there as it was.
\<close>

lemma hflatten_data_ok:
  assumes "stands_for (length h) h v t" and "depth t < d"
  shows "\<exists>h'. hflatten_data d ls sep h v = Some (h', HRef (length h))
           \<and> length h < length h'
           \<and> (\<forall>a<length h. h' ! a = h ! a)
           \<and> h' ! length h = flat_obj (flatten_data ls sep t)"
proof -
  let ?h1 = "h @ [HDict []]"
  have rel1: "stands_for (length h) ?h1 v t"
    using assms(1) by (subst stands_for_frame(1) [of "length h" ?h1 h]) (auto simp: nth_append)
  have "?h1 ! length h = flat_obj []" by (simp add: flat_obj_def)
  from hflatten_refines(1) [OF rel1 order_refl _ this assms(2), of ls sep "[]"] obtain h' where
    h': "hflatten_inner d ls sep (length h) ?h1 v [] = Some h'" "length ?h1 \<le> length h'"
      "\<forall>a<length ?h1. a \<noteq> length h \<longrightarrow> h' ! a = ?h1 ! a"
      "h' ! length h = flat_obj (flatten_inner ls sep t [] [])"
    by auto
  have "hflatten_data d ls sep h v = Some (h', HRef (length h))"
    by (simp add: hflatten_data_def alloc_def h'(1))
  moreover have "\<forall>a<length h. h' ! a = h ! a"
    using h'(3) by (auto simp: nth_append)
  ultimately show ?thesis
    using h'(2,4) by (auto simp: flatten_data_def)
qed

text \<open>
  C9.  The call returns, every object of the store before the call is unchanged after it
  (so the value passed in stands for the same tree), and the value returned is the address
  of an object that did not exist before the call, the flat dictionary.
\<close>

theorem hflatten_data_keeps_input:
  assumes "stands_for (length h) h v t" and "depth t < d"
  shows "\<exists>h'. hflatten_data d ls sep h v = Some (h', HRef (length h))
           \<and> length h < length h'
           \<and> (\<forall>a<length h. h' ! a = h ! a)
           \<and> stands_for (length h) h' v t
           \<and> h' ! length h = flat_obj (flatten_data ls sep t)"
proof -
  from hflatten_data_ok [OF assms, of ls sep] obtain h' where
    h': "hflatten_data d ls sep h v = Some (h', HRef (length h))" "length h < length h'"
      "\<forall>a<length h. h' ! a = h ! a" "h' ! length h = flat_obj (flatten_data ls sep t)"
    by blast
  from h'(3) have "stands_for (length h) h' v t = stands_for (length h) h v t"
    by (rule stands_for_frame(1))
  with assms(1) h' show ?thesis by blast
qed

theorem hflatten_data_keeps_input_witness:
  "stands_for
     (length [HDict [(''a'', HScalar (SInt 1))], HDict [(''b'', HScalar (SInt 2))],
              HList [HRef 0, HRef 1], HDict [(''p'', HRef 2)]])
     [HDict [(''a'', HScalar (SInt 1))], HDict [(''b'', HScalar (SInt 2))],
      HList [HRef 0, HRef 1], HDict [(''p'', HRef 2)]]
     (HRef 3)
     (JDict [(''p'', JList [JDict [(''a'', Leaf (SInt 1))], JDict [(''b'', Leaf (SInt 2))]])])
   \<and> depth (JDict [(''p'', JList [JDict [(''a'', Leaf (SInt 1))], JDict [(''b'', Leaf (SInt 2))]])])
       < 4
   \<and> (\<exists>h'. hflatten_data 4 (\<lambda>_. []) ''-''
              [HDict [(''a'', HScalar (SInt 1))], HDict [(''b'', HScalar (SInt 2))],
               HList [HRef 0, HRef 1], HDict [(''p'', HRef 2)]] (HRef 3)
            = Some (h', HRef 4)
          \<and> take 4 h' = [HDict [(''a'', HScalar (SInt 1))], HDict [(''b'', HScalar (SInt 2))],
                          HList [HRef 0, HRef 1], HDict [(''p'', HRef 2)]]
          \<and> h' ! 4 = HDict [(''p-a'', HScalar (SStr ''1, 1'')), (''p-b'', HScalar (SStr ''2''))])"
proof -
  let ?h = "[HDict [(''a'', HScalar (SInt 1))], HDict [(''b'', HScalar (SInt 2))],
             HList [HRef 0, HRef 1], HDict [(''p'', HRef 2)]]"
  let ?t = "JDict [(''p'', JList [JDict [(''a'', Leaf (SInt 1))], JDict [(''b'', Leaf (SInt 2))]])]"
  have rel: "stands_for (length ?h) ?h (HRef 3) ?t" by simp
  have dep: "depth ?t < 4" by simp
  from hflatten_data_keeps_input [OF rel dep, of "\<lambda>_. []" "''-''"] obtain h' where
    h': "hflatten_data 4 (\<lambda>_. []) ''-'' ?h (HRef 3) = Some (h', HRef (length ?h))"
      "\<forall>a<length ?h. h' ! a = ?h ! a" "length ?h < length h'"
      "h' ! length ?h = flat_obj (flatten_data (\<lambda>_. []) ''-'' ?t)"
    by blast
  have len: "length ?h = 4" by simp
  have "take 4 h' = ?h"
    using h'(2,3) unfolding len by (intro nth_equalityI) auto
  moreover have "h' ! 4 = HDict [(''p-a'', HScalar (SStr ''1, 1'')), (''p-b'', HScalar (SStr ''2''))]"
    using h'(4) unfolding len by (simp add: flat_obj_def flatten_unfold)
  moreover have "hflatten_data 4 (\<lambda>_. []) ''-'' ?h (HRef 3) = Some (h', HRef 4)"
    using h'(1) unfolding len .
  ultimately show ?thesis
    using rel dep by blast
qed

text \<open>
  C8.  Two calls on the same input, the second in the store that the first has left, both
  return; they return two different objects, and after the second call both hold the same
  dictionary: the same keys in the same order with the same values, which is the flat
  dictionary of the tree.
\<close>

theorem hflatten_data_twice:
  assumes "stands_for (length h) h v t" and "depth t < d"
  shows "\<exists>h1 r1 h2 r2.
           hflatten_data d ls sep h v = Some (h1, HRef r1)
           \<and> hflatten_data d ls sep h1 v = Some (h2, HRef r2)
           \<and> r1 \<noteq> r2
           \<and> h2 ! r1 = flat_obj (flatten_data ls sep t)
           \<and> h2 ! r2 = flat_obj (flatten_data ls sep t)"
proof -
  from hflatten_data_ok [OF assms, of ls sep] obtain h1 where
    h1: "hflatten_data d ls sep h v = Some (h1, HRef (length h))" "length h < length h1"
      "\<forall>a<length h. h1 ! a = h ! a" "h1 ! length h = flat_obj (flatten_data ls sep t)"
    by blast
  from h1(3) have "stands_for (length h) h1 v t = stands_for (length h) h v t"
    by (rule stands_for_frame(1))
  with assms(1) have "stands_for (length h) h1 v t" by simp
  then have rel1: "stands_for (length h1) h1 v t"
    by (rule stands_for_mono(1)) (use h1(2) in simp)
  from hflatten_data_ok [OF rel1 assms(2), of ls sep] obtain h2 where
    h2: "hflatten_data d ls sep h1 v = Some (h2, HRef (length h1))" "length h1 < length h2"
      "\<forall>a<length h1. h2 ! a = h1 ! a" "h2 ! length h1 = flat_obj (flatten_data ls sep t)"
    by blast
  from h2(3) h1(2) have "h2 ! length h = h1 ! length h" by blast
  with h1(4) have r1: "h2 ! length h = flat_obj (flatten_data ls sep t)" by simp
  from h1(2) have ne: "length h \<noteq> length h1" by simp
  from h1(1) h2(1) ne r1 h2(4) show ?thesis by blast
qed

theorem hflatten_data_twice_witness:
  "stands_for
     (length [HDict [(''a'', HScalar (SInt 1))], HDict [(''b'', HScalar (SInt 2))],
              HList [HRef 0, HRef 1], HDict [(''p'', HRef 2)]])
     [HDict [(''a'', HScalar (SInt 1))], HDict [(''b'', HScalar (SInt 2))],
      HList [HRef 0, HRef 1], HDict [(''p'', HRef 2)]]
     (HRef 3)
     (JDict [(''p'', JList [JDict [(''a'', Leaf (SInt 1))], JDict [(''b'', Leaf (SInt 2))]])])
   \<and> depth (JDict [(''p'', JList [JDict [(''a'', Leaf (SInt 1))], JDict [(''b'', Leaf (SInt 2))]])])
       < 4
   \<and> (\<exists>h1 r1 h2 r2.
          hflatten_data 4 (\<lambda>_. []) ''-''
            [HDict [(''a'', HScalar (SInt 1))], HDict [(''b'', HScalar (SInt 2))],
             HList [HRef 0, HRef 1], HDict [(''p'', HRef 2)]] (HRef 3)
          = Some (h1, HRef r1)
          \<and> hflatten_data 4 (\<lambda>_. []) ''-'' h1 (HRef 3) = Some (h2, HRef r2)
          \<and> r1 \<noteq> r2
          \<and> h2 ! r1 = HDict [(''p-a'', HScalar (SStr ''1, 1'')), (''p-b'', HScalar (SStr ''2''))]
          \<and> h2 ! r2 = HDict [(''p-a'', HScalar (SStr ''1, 1'')), (''p-b'', HScalar (SStr ''2''))])"
proof -
  let ?h = "[HDict [(''a'', HScalar (SInt 1))], HDict [(''b'', HScalar (SInt 2))],
             HList [HRef 0, HRef 1], HDict [(''p'', HRef 2)]]"
  let ?t = "JDict [(''p'', JList [JDict [(''a'', Leaf (SInt 1))], JDict [(''b'', Leaf (SInt 2))]])]"
  have rel: "stands_for (length ?h) ?h (HRef 3) ?t" by simp
  have dep: "depth ?t < 4" by simp
  have out: "flat_obj (flatten_data (\<lambda>_. []) ''-'' ?t)
             = HDict [(''p-a'', HScalar (SStr ''1, 1'')), (''p-b'', HScalar (SStr ''2''))]"
    by (simp add: flat_obj_def flatten_unfold)
  from hflatten_data_twice [OF rel dep, of "\<lambda>_. []" "''-''"] rel dep show ?thesis
    unfolding out by blast
qed

end
